theory Spec2Isabelle
  imports Complex_Main "HOL-Library.While_Combinator" "HOL-Library.Log_Nat"
begin

section \<open>JavaScript values\<close>

text \<open>
  The background remover is a JavaScript class working on typed arrays. A JavaScript
  number is modelled as \<open>real option\<close>: \<open>Some x\<close> is the finite number \<open>x\<close> and
  \<open>None\<close> is \<open>NaN\<close>. Arithmetic on finite numbers is exact (the rounding of IEEE
  doubles and of \<open>Float32Array\<close> cells is not modelled; no infinity arises, since
  every division in the modelled code has a positive integer divisor). \<open>undefined\<close>, which a typed
  array returns for a read outside its bounds, becomes \<open>NaN\<close> in every arithmetic
  operation and comparison, so it is \<open>None\<close> as well.
\<close>

type_synonym jsnum = "real option"

definition jsbin :: "(real \<Rightarrow> real \<Rightarrow> real) \<Rightarrow> jsnum \<Rightarrow> jsnum \<Rightarrow> jsnum" where
  "jsbin f a b =
     (case a of None \<Rightarrow> None
      | Some x \<Rightarrow> (case b of None \<Rightarrow> None | Some y \<Rightarrow> Some (f x y)))"

definition jadd :: "jsnum \<Rightarrow> jsnum \<Rightarrow> jsnum" where
  "jadd = jsbin (+)"

definition jsub :: "jsnum \<Rightarrow> jsnum \<Rightarrow> jsnum" where
  "jsub = jsbin (-)"

definition jmul :: "jsnum \<Rightarrow> jsnum \<Rightarrow> jsnum" where
  "jmul = jsbin (*)"

text \<open>\<open>Math.max\<close> and \<open>Math.min\<close> return \<open>NaN\<close> as soon as one argument is \<open>NaN\<close>.\<close>

definition jmax :: "jsnum \<Rightarrow> jsnum \<Rightarrow> jsnum" where
  "jmax = jsbin max"

definition jmin :: "jsnum \<Rightarrow> jsnum \<Rightarrow> jsnum" where
  "jmin = jsbin min"

definition jabs :: "jsnum \<Rightarrow> jsnum" where
  "jabs = map_option abs"

definition jsqrt :: "jsnum \<Rightarrow> jsnum" where
  "jsqrt = map_option sqrt"

text \<open>\<open>Math.round\<close> rounds half up: \<open>Math.round(2.5) = 3\<close>, \<open>Math.round(-2.5) = -2\<close>.\<close>

definition js_round :: "real \<Rightarrow> int" where
  "js_round x = \<lfloor>x + 1 / 2\<rfloor>"

definition jround :: "jsnum \<Rightarrow> jsnum" where
  "jround = map_option (\<lambda>x. real_of_int (js_round x))"

text \<open>Every comparison with \<open>NaN\<close> is false.\<close>

definition jle :: "jsnum \<Rightarrow> jsnum \<Rightarrow> bool" where
  "jle a b = (case a of None \<Rightarrow> False
              | Some x \<Rightarrow> (case b of None \<Rightarrow> False | Some y \<Rightarrow> x \<le> y))"

definition jlt :: "jsnum \<Rightarrow> jsnum \<Rightarrow> bool" where
  "jlt a b = (case a of None \<Rightarrow> False
              | Some x \<Rightarrow> (case b of None \<Rightarrow> False | Some y \<Rightarrow> x < y))"

definition jge :: "jsnum \<Rightarrow> jsnum \<Rightarrow> bool" where
  "jge a b = jle b a"

definition jgt :: "jsnum \<Rightarrow> jsnum \<Rightarrow> bool" where
  "jgt a b = jlt b a"

text \<open>
  A \<open>Float32Array\<close> is a list of numbers, a \<open>Uint8Array\<close> or \<open>Uint8ClampedArray\<close> a list
  of naturals. A read outside the bounds gives \<open>undefined\<close>.
\<close>

definition rdF :: "jsnum list \<Rightarrow> nat \<Rightarrow> jsnum" where
  "rdF xs i = (if i < length xs then xs ! i else None)"

definition clamp :: "jsnum \<Rightarrow> jsnum \<Rightarrow> jsnum \<Rightarrow> jsnum" where
  "clamp v lo hi = jmax lo (jmin hi v)"

section \<open>The constructor\<close>

text \<open>
  An option of the constructor's argument is absent (\<open>undefined\<close>) or holds a number.
  \<open>a || d\<close> is \<open>a\<close> when \<open>a\<close> is truthy and \<open>d\<close> otherwise; \<open>undefined\<close>, \<open>NaN\<close> and
  \<open>0\<close> are falsy.
\<close>

datatype jsval = JUndefined | JNumber jsnum

fun truthy :: "jsval \<Rightarrow> bool" where
  "truthy JUndefined = False"
| "truthy (JNumber None) = False"
| "truthy (JNumber (Some x)) = (x \<noteq> 0)"

fun to_number :: "jsval \<Rightarrow> jsnum" where
  "to_number JUndefined = None"
| "to_number (JNumber n) = n"

definition or_default :: "jsval \<Rightarrow> real \<Rightarrow> jsnum" where
  "or_default a d = (if truthy a then to_number a else Some d)"

record remover_options =
  opt_threshold :: jsval
  opt_featherAmount :: jsval
  opt_maxProcessingSide :: jsval

record BackgroundRemover =
  threshold :: jsnum
  featherAmount :: jsnum
  maxProcessingSide :: jsnum

definition constructor :: "remover_options \<Rightarrow> BackgroundRemover" where
  "constructor options =
     \<lparr> threshold = or_default (opt_threshold options) 30,
       featherAmount = or_default (opt_featherAmount options) 2,
       maxProcessingSide = or_default (opt_maxProcessingSide options) 1200 \<rparr>"

text \<open>The blur radius \<open>Math.max(1, this.featherAmount + 1)\<close> of \<open>buildLocalForegroundMask\<close>.\<close>

definition blurRadius :: "BackgroundRemover \<Rightarrow> jsnum" where
  "blurRadius this = jmax (Some 1) (jadd (featherAmount this) (Some 1))"

section \<open>Crop bounds\<close>

text \<open>
  \<open>computeCropBoundsFromMask\<close> scans the matte row by row. The matte is a
  \<open>Float32Array\<close>; the four bounds start at \<open>height\<close>, \<open>-1\<close>, \<open>width\<close>, \<open>-1\<close>.
  The test \<open>value <= alphaThreshold\<close> skips the pixel; \<open>null\<close> is \<open>None\<close>.
\<close>

record crop_bounds =
  c_top :: int
  c_bottom :: int
  c_left :: int
  c_right :: int

definition crop_pixel :: "jsnum list \<Rightarrow> nat \<Rightarrow> nat \<Rightarrow> nat \<Rightarrow> crop_bounds \<Rightarrow> crop_bounds" where
  "crop_pixel matte width y x b =
     (let v = rdF matte (y * width + x) in
      if jle v (Some 0.08) then b
      else \<lparr> c_top = (if int y < c_top b then int y else c_top b),
             c_bottom = (if int y > c_bottom b then int y else c_bottom b),
             c_left = (if int x < c_left b then int x else c_left b),
             c_right = (if int x > c_right b then int x else c_right b) \<rparr>)"

definition crop_scan :: "jsnum list \<Rightarrow> nat \<Rightarrow> nat \<Rightarrow> crop_bounds" where
  "crop_scan matte width height =
     fold (\<lambda>y. fold (crop_pixel matte width y) [0..<width]) [0..<height]
       \<lparr> c_top = int height, c_bottom = -1, c_left = int width, c_right = -1 \<rparr>"

definition computeCropBoundsFromMask :: "jsnum list \<Rightarrow> nat \<Rightarrow> nat \<Rightarrow> crop_bounds option" where
  "computeCropBoundsFromMask matte width height =
     (let b = crop_scan matte width height in
      if c_bottom b < c_top b \<or> c_right b < c_left b then None else Some b)"

text \<open>
  The pixels (column, row) of the matte whose value is strictly greater than 0.08, and
  the matte of the crop test: 1 inside the rectangle with columns 10 to 50 and rows 10
  to 40, 0 elsewhere.
\<close>

definition qualifying :: "jsnum list \<Rightarrow> nat \<Rightarrow> nat \<Rightarrow> (nat \<times> nat) set" where
  "qualifying matte width height =
     {(x, y). x < width \<and> y < height \<and> jgt (rdF matte (y * width + x)) (Some 0.08)}"

definition rect_matte :: "nat \<Rightarrow> nat \<Rightarrow> jsnum list" where
  "rect_matte width height =
     map (\<lambda>i. if 10 \<le> i mod width \<and> i mod width \<le> 50 \<and> 10 \<le> i div width \<and> i div width \<le> 40
               then Some 1 else Some 0) [0..<width * height]"

text \<open>The (row, column) pairs that the scan does not skip.\<close>

definition crop_hit :: "jsnum list \<Rightarrow> nat \<Rightarrow> nat \<times> nat \<Rightarrow> bool" where
  "crop_hit matte width p = (\<not> jle (rdF matte (fst p * width + snd p)) (Some 0.08))"

definition crop_hits :: "jsnum list \<Rightarrow> nat \<Rightarrow> nat \<Rightarrow> (nat \<times> nat) set" where
  "crop_hits m w h = {p \<in> set (List.product [0..<h] [0..<w]). crop_hit m w p}"

section \<open>The gradient map\<close>

text \<open>
  The pixel buffer \<open>data\<close> is a \<open>Uint8ClampedArray\<close> of four bytes per pixel, row by
  row. A read of it is used in arithmetic only, so a read outside its bounds counts as
  \<open>NaN\<close>.
\<close>

definition rdU :: "nat list \<Rightarrow> nat \<Rightarrow> jsnum" where
  "rdU xs i = (if i < length xs then Some (real (xs ! i)) else None)"

text \<open>
  \<open>luma\<close> and \<open>gradient\<close> are \<open>Float32Array\<close>s: a store rounds the number to the nearest
  single-precision float, ties to the even significand. \<open>fround\<close> is that rounding
  (\<open>Math.fround\<close>): \<open>f32_exponent\<close> is the binary exponent of the float's binade, the
  largest \<open>e\<close> with \<open>2 ^ e \<le> a\<close>, not below -126 (the subnormal range) and not above 127;
  the spacing of the floats there is \<open>2 ^ (e - 23)\<close>, and the number is rounded to a
  multiple of it. A magnitude of \<open>2 ^ 128\<close> or more would be stored as \<open>Infinity\<close>; the
  numbers stored here come from bytes and stay below 511. \<open>NaN\<close> is stored as \<open>NaN\<close>.
\<close>

definition pow2 :: "int \<Rightarrow> real" where
  "pow2 e = (if 0 \<le> e then 2 ^ nat e else 1 / 2 ^ nat (- e))"

definition f32_exponent :: "real \<Rightarrow> int" where
  "f32_exponent a =
     (if 1 \<le> a then min 127 (bitlen \<lfloor>a\<rfloor> - 1)
      else if a < pow2 (- 126) then - 126
      else let k = bitlen \<lfloor>1 / a\<rfloor> - 1 in if a * pow2 k = 1 then - k else - k - 1)"

definition round_half_even :: "real \<Rightarrow> int" where
  "round_half_even y =
     (let f = \<lfloor>y\<rfloor>; d = y - of_int f
      in if d < 1 / 2 then f else if d > 1 / 2 then f + 1 else if even f then f else f + 1)"

definition fround :: "real \<Rightarrow> real" where
  "fround x =
     (let q = pow2 (f32_exponent \<bar>x\<bar> - 23)
      in of_int (round_half_even (x / q)) * q)"

definition jfround :: "jsnum \<Rightarrow> jsnum" where
  "jfround = map_option fround"

text \<open>
  \<open>computeGradientMap\<close> first fills \<open>luma\<close>, one cell per pixel, then \<open>gradient\<close>,
  which starts as \<open>total\<close> zeros and is written cell by cell in the two nested loops.
  \<open>luma_at\<close> is the number stored in a cell of \<open>luma\<close>. \<open>gradient_at\<close> is the sum
  \<open>gx + gy\<close> of the inner loop, which is rounded when it is stored; the neighbour
  indices are taken as the source takes them, each guarded by its test on \<open>x\<close> or \<open>y\<close>.
  The weighted sum of three bytes is taken exactly: the double-precision operations of
  the source differ from it by less than \<open>2 ^ - 40\<close>, and the sum, a multiple of 1/1000,
  is never that close to the midpoint of two neighbouring floats without being a float
  itself, so both round to the same float. The differences and the sum of the stored
  lumas are exact in double precision.
\<close>

definition luma_at :: "nat list \<Rightarrow> nat \<Rightarrow> jsnum" where
  "luma_at data i =
     (let idx = i * 4 in
      jfround
        (jadd (jadd (jmul (Some 0.299) (rdU data idx)) (jmul (Some 0.587) (rdU data (idx + 1))))
              (jmul (Some 0.114) (rdU data (idx + 2)))))"

definition gradient_at :: "jsnum list \<Rightarrow> nat \<Rightarrow> nat \<Rightarrow> nat \<Rightarrow> nat \<Rightarrow> jsnum" where
  "gradient_at luma width height y x =
     (let idx = y * width + x;
          left = (if x > 0 then idx - 1 else idx);
          right = (if x < width - 1 then idx + 1 else idx);
          up = (if y > 0 then idx - width else idx);
          down = (if y < height - 1 then idx + width else idx);
          gx = jabs (jsub (rdF luma right) (rdF luma left));
          gy = jabs (jsub (rdF luma down) (rdF luma up))
      in jadd gx gy)"

definition computeGradientMap :: "nat list \<Rightarrow> nat \<Rightarrow> nat \<Rightarrow> jsnum list" where
  "computeGradientMap data width height =
     (let total = width * height;
          luma = map (luma_at data) [0..<total]
      in fold (\<lambda>y. fold (\<lambda>x gradient.
                 gradient[y * width + x := jfround (gradient_at luma width height y x)])
               [0..<width])
           [0..<height] (replicate total (Some 0)))"

text \<open>
  The stored luma of the pixel in column \<open>x\<close> of row \<open>y\<close> of a buffer: the weighted sum
  of its three colour bytes, rounded to a float.
\<close>

definition luma_px :: "nat list \<Rightarrow> nat \<Rightarrow> nat \<Rightarrow> nat \<Rightarrow> real" where
  "luma_px data width x y =
     fround (0.299 * real (data ! ((y * width + x) * 4)) +
             0.587 * real (data ! ((y * width + x) * 4 + 1)) +
             0.114 * real (data ! ((y * width + x) * 4 + 2)))"

section \<open>Softening the binary mask\<close>

text \<open>
  Division of numbers. A zero divisor gives \<open>NaN\<close> here: in the modelled code a divisor
  is a positive constant or a count of loop iterations, and a count of zero only meets a
  sum of zero, for which JavaScript's \<open>0 / 0\<close> is \<open>NaN\<close>.
\<close>

definition jdiv :: "jsnum \<Rightarrow> jsnum \<Rightarrow> jsnum" where
  "jdiv a b =
     (case a of None \<Rightarrow> None
      | Some x \<Rightarrow> (case b of None \<Rightarrow> None
                   | Some y \<Rightarrow> if y = 0 then None else Some (x / y)))"

text \<open>
  \<open>boxBlur\<close> runs a horizontal pass into \<open>horizontal\<close> and a vertical pass over it into
  \<open>vertical\<close>; both arrays have the length of the input and start as zeros. \<open>blur_row\<close>
  and \<open>blur_col\<close> are the bodies of the two inner pixel loops: the window loop from
  \<open>-radius\<close> to \<open>radius\<close> skips the positions outside the image and the cell receives
  \<open>sum / count\<close>. The radius is an integer (the spec's \<open>featherAmount\<close> is one).
\<close>

definition blur_row :: "jsnum list \<Rightarrow> nat \<Rightarrow> int \<Rightarrow> nat \<Rightarrow> nat \<Rightarrow> jsnum" where
  "blur_row msk width radius y x =
     (let (sum, count) =
        fold (\<lambda>dx (sum, count).
                let nx = int x + dx in
                if nx < 0 \<or> nx \<ge> int width then (sum, count)
                else (jadd sum (rdF msk (y * width + nat nx)), count + 1))
          [- radius..radius] (Some 0, 0::nat)
      in jdiv sum (Some (real count)))"

definition blur_col :: "jsnum list \<Rightarrow> nat \<Rightarrow> nat \<Rightarrow> int \<Rightarrow> nat \<Rightarrow> nat \<Rightarrow> jsnum" where
  "blur_col horizontal width height radius y x =
     (let (sum, count) =
        fold (\<lambda>dy (sum, count).
                let ny = int y + dy in
                if ny < 0 \<or> ny \<ge> int height then (sum, count)
                else (jadd sum (rdF horizontal (nat ny * width + x)), count + 1))
          [- radius..radius] (Some 0, 0::nat)
      in jdiv sum (Some (real count)))"

definition boxBlur :: "jsnum list \<Rightarrow> nat \<Rightarrow> nat \<Rightarrow> int \<Rightarrow> jsnum list" where
  "boxBlur msk width height radius =
     (let horizontal =
            fold (\<lambda>y. fold (\<lambda>x horizontal.
                    horizontal[y * width + x := blur_row msk width radius y x]) [0..<width])
              [0..<height] (replicate (length msk) (Some 0));
          vertical =
            fold (\<lambda>y. fold (\<lambda>x vertical.
                    vertical[y * width + x := blur_col horizontal width height radius y x]) [0..<width])
              [0..<height] (replicate (length msk) (Some 0))
      in vertical)"

text \<open>
  \<open>softenBinaryMask\<close> copies the byte mask into floats, returns the copy when the radius
  is not positive, and otherwise remaps every blurred cell by \<open>smoothstep\<close>, the body of
  its last loop.
\<close>

definition smoothstep :: "jsnum \<Rightarrow> jsnum" where
  "smoothstep b =
     (let normalized = clamp (jdiv (jsub b (Some 0.16)) (Some 0.72)) (Some 0) (Some 1)
      in jmul (jmul normalized normalized) (jsub (Some 3) (jmul (Some 2) normalized)))"

definition softenBinaryMask :: "nat list \<Rightarrow> nat \<Rightarrow> nat \<Rightarrow> int \<Rightarrow> jsnum list" where
  "softenBinaryMask msk width height radius =
     (let floatMask = map (\<lambda>v. Some (real v)) msk in
      if radius \<le> 0 then floatMask
      else map smoothstep (boxBlur floatMask width height radius))"

text \<open>
  One step of a window loop over a (sum, count) pair, and the pixels that have a
  non-zero mask cell within \<open>radius\<close> rows and columns of them.
\<close>

definition win_step :: "(int \<Rightarrow> bool) \<Rightarrow> (int \<Rightarrow> jsnum) \<Rightarrow> int \<Rightarrow> jsnum \<times> nat \<Rightarrow> jsnum \<times> nat" where
  "win_step valid read d = (\<lambda>(sum, count).
     if valid d then (jadd sum (read d), count + 1) else (sum, count))"

definition box_lit :: "nat list \<Rightarrow> nat \<Rightarrow> nat \<Rightarrow> int \<Rightarrow> nat \<Rightarrow> nat \<Rightarrow> bool" where
  "box_lit msk width height radius y x \<longleftrightarrow>
     (\<exists>ny nx. ny < height \<and> nx < width \<and> \<bar>int ny - int y\<bar> \<le> radius \<and>
        \<bar>int nx - int x\<bar> \<le> radius \<and> msk ! (ny * width + nx) \<noteq> 0)"

section \<open>The background model\<close>

text \<open>
  \<open>estimateBackgroundModel\<close> samples the border of the image. \<open>addSample\<close> reads the
  pixel at column \<open>x\<close> of row \<open>y\<close>; both may be negative or beyond the image (the source
  computes \<open>height - 1 - y\<close> and \<open>width - 1 - x\<close> without a bound check), so they are
  integers and a read of the buffer returns a byte or \<open>undefined\<close> (\<open>None\<close>).
  \<open>undefined < 16\<close> is false, so an \<open>undefined\<close> alpha does not skip the sample;
  \<open>undefined >> 4\<close> is 0.
\<close>

definition rdB :: "nat list \<Rightarrow> int \<Rightarrow> nat option" where
  "rdB data i = (if 0 \<le> i \<and> i < int (length data) then Some (data ! nat i) else None)"

definition to_num :: "nat option \<Rightarrow> jsnum" where
  "to_num v = map_option real v"

definition shr4 :: "nat option \<Rightarrow> nat" where
  "shr4 v = (case v of None \<Rightarrow> 0 | Some n \<Rightarrow> n div 16)"

definition rgbDistance :: "jsnum \<Rightarrow> jsnum \<Rightarrow> jsnum \<Rightarrow> jsnum \<Rightarrow> jsnum \<Rightarrow> jsnum \<Rightarrow> jsnum" where
  "rgbDistance r1 g1 b1 r2 g2 b2 =
     (let dr = jsub r1 r2; dg = jsub g1 g2; db = jsub b1 b2
      in jsqrt (jadd (jadd (jmul dr dr) (jmul dg dg)) (jmul db db)))"

text \<open>
  The bins are a \<open>Map\<close>, which iterates in insertion order: an association list, a new
  key appended at the end and an existing key updated in place. The key string
  \<open>r>>4 - g>>4 - b>>4\<close> is the triple of the three numbers.
\<close>

record color_bin =
  bin_count :: nat
  bin_r :: jsnum
  bin_g :: jsnum
  bin_b :: jsnum

type_synonym sample = "nat option \<times> nat option \<times> nat option"

type_synonym bin_key = "nat \<times> nat \<times> nat"

fun bins_add :: "bin_key \<Rightarrow> jsnum \<Rightarrow> jsnum \<Rightarrow> jsnum \<Rightarrow> (bin_key \<times> color_bin) list
    \<Rightarrow> (bin_key \<times> color_bin) list" where
  "bins_add key r g b [] = [(key, \<lparr>bin_count = 1, bin_r = r, bin_g = g, bin_b = b\<rparr>)]"
| "bins_add key r g b ((k, bin) # rest) =
     (if k = key
      then (k, \<lparr>bin_count = bin_count bin + 1, bin_r = jadd (bin_r bin) r,
                bin_g = jadd (bin_g bin) g, bin_b = jadd (bin_b bin) b\<rparr>) # rest
      else (k, bin) # bins_add key r g b rest)"

record sampling =
  samples :: "sample list"
  bins :: "(bin_key \<times> color_bin) list"

definition addSample :: "nat list \<Rightarrow> nat \<Rightarrow> int \<Rightarrow> int \<Rightarrow> sampling \<Rightarrow> sampling" where
  "addSample data width x y st =
     (let idx = (y * int width + x) * 4;
          a = rdB data (idx + 3)
      in if jlt (to_num a) (Some 16) then st
         else
           let r = rdB data idx; g = rdB data (idx + 1); b = rdB data (idx + 2);
               key = (shr4 r, shr4 g, shr4 b)
           in \<lparr> samples = samples st @ [(r, g, b)],
                bins = bins_add key (to_num r) (to_num g) (to_num b) (bins st) \<rparr>)"

text \<open>
  The values of a loop \<open>for (v = lo; v < hi; v += step)\<close>, and the two pairs of nested
  sampling loops.
\<close>

definition stepped :: "nat \<Rightarrow> nat \<Rightarrow> nat \<Rightarrow> nat list" where
  "stepped lo hi step = filter (\<lambda>v. (v - lo) mod step = 0) [lo..<hi]"

definition collect_samples :: "nat list \<Rightarrow> nat \<Rightarrow> nat \<Rightarrow> nat \<Rightarrow> nat \<Rightarrow> sampling" where
  "collect_samples data width height border step =
     (let st1 =
            fold (\<lambda>y. fold (\<lambda>x st.
                    addSample data width (int x) (int height - 1 - int y)
                      (addSample data width (int x) (int y) st))
                  (stepped 0 width step))
              (stepped 0 border step) \<lparr> samples = [], bins = [] \<rparr>
      in fold (\<lambda>x. fold (\<lambda>y st.
                    addSample data width (int width - 1 - int x) (int y)
                      (addSample data width (int x) (int y) st))
                  (stepped border (height - border) step))
           (stepped 0 border step) st1)"

text \<open>
  The most populous bin: the first one, in iteration order, that no earlier bin matches
  and no later bin exceeds.
\<close>

definition dominant_bin :: "color_bin list \<Rightarrow> color_bin option" where
  "dominant_bin vs =
     fold (\<lambda>v dominant.
             case dominant of None \<Rightarrow> Some v
             | Some d \<Rightarrow> if bin_count v > bin_count d then Some v else Some d)
       vs None"

record rgb =
  rgb_r :: jsnum
  rgb_g :: jsnum
  rgb_b :: jsnum

definition averageColor :: "sample list \<Rightarrow> rgb" where
  "averageColor ss =
     (if length ss = 0 then \<lparr> rgb_r = Some 0, rgb_g = Some 0, rgb_b = Some 0 \<rparr>
      else
        let r = fold (\<lambda>s r. jadd r (to_num (fst s))) ss (Some 0);
            g = fold (\<lambda>s g. jadd g (to_num (fst (snd s)))) ss (Some 0);
            b = fold (\<lambda>s b. jadd b (to_num (snd (snd s)))) ss (Some 0);
            n = Some (real (length ss))
        in \<lparr> rgb_r = jround (jdiv r n), rgb_g = jround (jdiv g n), rgb_b = jround (jdiv b n) \<rparr>)"

text \<open>
  \<open>Array.prototype.sort\<close> with a comparator is a stable sort; a comparator result of
  \<open>NaN\<close> counts as 0 (equal). For a comparator that is a consistent order the result is
  the stable sorted array, which this insertion sort computes; an element is placed
  before the first one it is not greater than.
\<close>

fun insort_cmp :: "('a \<Rightarrow> 'a \<Rightarrow> jsnum) \<Rightarrow> 'a \<Rightarrow> 'a list \<Rightarrow> 'a list" where
  "insort_cmp c x [] = [x]"
| "insort_cmp c x (y # ys) =
     (if jgt (c x y) (Some 0) then y # insort_cmp c x ys else x # y # ys)"

definition sort_cmp :: "('a \<Rightarrow> 'a \<Rightarrow> jsnum) \<Rightarrow> 'a list \<Rightarrow> 'a list" where
  "sort_cmp c xs = foldr (insort_cmp c) xs []"

definition percentileSorted :: "jsnum list \<Rightarrow> real \<Rightarrow> jsnum" where
  "percentileSorted sortedValues percentile =
     (if length sortedValues = 0 then Some 0
      else
        let index = min (int (length sortedValues) - 1)
                      (max 0 \<lfloor>(real (length sortedValues) - 1) * percentile\<rfloor>)
        in rdF sortedValues (nat index))"

record bg_model =
  m_r :: jsnum
  m_g :: jsnum
  m_b :: jsnum
  tolerance :: jsnum
  expansionTolerance :: jsnum

text \<open>
  \<open>dominant.r\<close> on a \<open>null\<close> dominant bin would throw a \<open>TypeError\<close>; the model keeps
  that branch, which the code never takes (samples and bins are filled together).
\<close>

datatype js_error = TypeError

definition estimateBackgroundModel :: "nat list \<Rightarrow> nat \<Rightarrow> nat \<Rightarrow> js_error + bg_model" where
  "estimateBackgroundModel data width height =
     (let border = nat (max 6 (min 18 (js_round (real (min width height) * 0.025))));
          step = nat (max 1 (js_round (real (min width height) / 320)));
          st = collect_samples data width height border step
      in if length (samples st) = 0
         then Inr \<lparr> m_r = Some 245, m_g = Some 245, m_b = Some 245,
                    tolerance = Some 30, expansionTolerance = Some 42 \<rparr>
         else
           case dominant_bin (map snd (bins st)) of
             None \<Rightarrow> Inl TypeError
           | Some dominant \<Rightarrow>
               let n = Some (real (bin_count dominant));
                   center = \<lparr> rgb_r = jround (jdiv (bin_r dominant) n),
                              rgb_g = jround (jdiv (bin_g dominant) n),
                              rgb_b = jround (jdiv (bin_b dominant) n) \<rparr>;
                   nearSamples = filter (\<lambda>s.
                       jlt (rgbDistance (to_num (fst s)) (to_num (fst (snd s))) (to_num (snd (snd s)))
                              (rgb_r center) (rgb_g center) (rgb_b center)) (Some 42))
                     (samples st);
                   refinedPool = (if length nearSamples \<ge> 50 then nearSamples else samples st);
                   center = averageColor refinedPool;
                   distances = sort_cmp (\<lambda>a b. jsub a b)
                     (map (\<lambda>s. rgbDistance (to_num (fst s)) (to_num (fst (snd s)))
                                   (to_num (snd (snd s)))
                                   (rgb_r center) (rgb_g center) (rgb_b center)) refinedPool);
                   p80 = percentileSorted distances 0.8;
                   p95 = percentileSorted distances 0.95;
                   tolerance = clamp (jmax (Some 24) (jmul p80 (Some 1.25))) (Some 24) (Some 110);
                   expansionTolerance =
                     clamp (jmax (Some 32) (jmul p95 (Some 1.35))) (Some 32) (Some 135)
               in Inr \<lparr> m_r = rgb_r center, m_g = rgb_g center, m_b = rgb_b center,
                          tolerance = tolerance, expansionTolerance = expansionTolerance \<rparr>)"

text \<open>A sample whose three channels were read inside the buffer.\<close>

definition sample_defined :: "sample \<Rightarrow> bool" where
  "sample_defined s \<longleftrightarrow> fst s \<noteq> None \<and> fst (snd s) \<noteq> None \<and> snd (snd s) \<noteq> None"

section \<open>Border seeds\<close>

text \<open>
  \<open>collectBorderSeeds\<close> visits the border band with \<open>consider\<close> (here
  \<open>consider_pixel\<close>), which appends the pixel to \<open>candidates\<close> and, when it passes the
  test, to \<open>seeds\<close>. For \<open>width, height \<ge> 1\<close> the band thickness is at most
  \<open>min width height\<close>, so \<open>height - 1 - y\<close> and \<open>width - 1 - x\<close> are natural numbers
  and the pixel indices are naturals.
\<close>

definition rgbDistanceAt :: "nat list \<Rightarrow> nat \<Rightarrow> jsnum \<Rightarrow> jsnum \<Rightarrow> jsnum \<Rightarrow> jsnum" where
  "rgbDistanceAt data pixelIndex r g b =
     (let idx = pixelIndex * 4
      in rgbDistance (rdU data idx) (rdU data (idx + 1)) (rdU data (idx + 2)) r g b)"

record candidate =
  cand_idx :: nat
  cand_dist :: jsnum
  cand_grad :: jsnum

definition consider_pixel :: "nat list \<Rightarrow> bg_model \<Rightarrow> jsnum list \<Rightarrow> nat
    \<Rightarrow> nat list \<times> candidate list \<Rightarrow> nat list \<times> candidate list" where
  "consider_pixel data model gradient idx = (\<lambda>(seeds, candidates).
     let dist = rgbDistanceAt data idx (m_r model) (m_g model) (m_b model);
         grad = rdF gradient idx;
         candidates = candidates @ [\<lparr> cand_idx = idx, cand_dist = dist, cand_grad = grad \<rparr>]
     in if jle dist (tolerance model) \<and> jle grad (Some 85)
        then (seeds @ [idx], candidates)
        else (seeds, candidates))"

definition border_scan :: "nat list \<Rightarrow> nat \<Rightarrow> nat \<Rightarrow> bg_model \<Rightarrow> jsnum list \<Rightarrow> nat
    \<Rightarrow> nat list \<times> candidate list" where
  "border_scan data width height model gradient borderThickness =
     (let st1 =
            fold (\<lambda>y. fold (\<lambda>x st.
                    consider_pixel data model gradient ((height - 1 - y) * width + x)
                      (consider_pixel data model gradient (y * width + x) st))
                  [0..<width])
              [0..<borderThickness] ([], [])
      in fold (\<lambda>x. fold (\<lambda>y st.
                    consider_pixel data model gradient (y * width + (width - 1 - x))
                      (consider_pixel data model gradient (y * width + x) st))
                  [borderThickness..<height - borderThickness])
           [0..<borderThickness] st1)"

definition candidate_cmp :: "candidate \<Rightarrow> candidate \<Rightarrow> jsnum" where
  "candidate_cmp a b =
     jsub (jadd (cand_dist a) (jmul (cand_grad a) (Some 0.2)))
          (jadd (cand_dist b) (jmul (cand_grad b) (Some 0.2)))"

definition collectBorderSeeds :: "nat list \<Rightarrow> nat \<Rightarrow> nat \<Rightarrow> bg_model \<Rightarrow> jsnum list \<Rightarrow> nat list" where
  "collectBorderSeeds data width height model gradient =
     (let borderThickness = nat (max 1 (js_round (real (min width height) * 0.01)));
          (seeds, candidates) = border_scan data width height model gradient borderThickness
      in if length seeds > 0 then seeds
         else
           let candidates = sort_cmp candidate_cmp candidates;
               fallbackCount = nat (max 40 (js_round (real (min width height) * 0.3)))
           in seeds @ map cand_idx (take (min fallbackCount (length candidates)) candidates))"

text \<open>
  The seed test of a pixel; the border band as a set of pixel indices (the pixels less
  than the thickness away from one of the four sides); the score that ranks the
  fallback candidates; the candidate record of a pixel; the candidates in the order
  the loops visit them (a pixel can be visited more than once).
\<close>

definition is_seed :: "nat list \<Rightarrow> bg_model \<Rightarrow> jsnum list \<Rightarrow> nat \<Rightarrow> bool" where
  "is_seed data model gradient i \<longleftrightarrow>
     jle (rgbDistanceAt data i (m_r model) (m_g model) (m_b model)) (tolerance model) \<and>
     jle (rdF gradient i) (Some 85)"

definition border_band :: "nat \<Rightarrow> nat \<Rightarrow> nat set" where
  "border_band width height =
     (let t = nat (max 1 (js_round (real (min width height) * 0.01)))
      in {i. i < width * height \<and>
             (i div width < t \<or> height - t \<le> i div width \<or>
              i mod width < t \<or> width - t \<le> i mod width)})"

definition candidate_score :: "candidate \<Rightarrow> real" where
  "candidate_score c =
     (case jadd (cand_dist c) (jmul (cand_grad c) (Some 0.2)) of None \<Rightarrow> 0 | Some v \<Rightarrow> v)"

definition mk_candidate :: "nat list \<Rightarrow> bg_model \<Rightarrow> jsnum list \<Rightarrow> nat \<Rightarrow> candidate" where
  "mk_candidate data model gradient idx =
     \<lparr> cand_idx = idx,
       cand_dist = rgbDistanceAt data idx (m_r model) (m_g model) (m_b model),
       cand_grad = rdF gradient idx \<rparr>"

definition border_candidates :: "nat list \<Rightarrow> nat \<Rightarrow> nat \<Rightarrow> bg_model \<Rightarrow> jsnum list \<Rightarrow> candidate list" where
  "border_candidates data width height model gradient =
     snd (border_scan data width height model gradient
            (nat (max 1 (js_round (real (min width height) * 0.01)))))"

definition visit_order :: "nat \<Rightarrow> nat \<Rightarrow> nat \<Rightarrow> nat list" where
  "visit_order width height t =
     concat (map (\<lambda>y. concat (map (\<lambda>x. [y * width + x, (height - 1 - y) * width + x]) [0..<width]))
               [0..<t]) @
     concat (map (\<lambda>x. concat (map (\<lambda>y. [y * width + x, y * width + (width - 1 - x)])
                                  [t..<height - t]))
               [0..<t])"

section \<open>Region growing\<close>

text \<open>
  The three flood fills of the source share one shape: a \<open>Uint8Array\<close> or \<open>Int32Array\<close>
  of marks (\<open>visited\<close>, or \<open>labels\<close> in \<open>keepMainForegroundRegions\<close>), an \<open>Int32Array\<close>
  \<open>queue\<close> of \<open>width * height\<close> cells and the two cursors \<open>head\<close> and \<open>tail\<close>. A write
  beyond the end of a typed array is ignored, as \<open>xs[i := v]\<close> is; a read beyond the end
  is \<open>undefined\<close>, which is falsy as a mark and makes every test of the loop body false
  as a dequeued index. A \<open>while\<close> loop is \<open>while_option\<close>: \<open>None\<close> when it does not
  terminate.
\<close>

record bfs_state =
  visited :: "nat list"
  queue :: "nat list"
  head :: nat
  tail :: nat

definition truthyU :: "nat list \<Rightarrow> nat \<Rightarrow> bool" where
  "truthyU xs i = (i < length xs \<and> xs ! i \<noteq> 0)"

definition rdN :: "nat list \<Rightarrow> nat \<Rightarrow> nat option" where
  "rdN xs i = (if i < length xs then Some (xs ! i) else None)"









section \<open>Breadth-first search, in general\<close>

text \<open>
  The notions the proofs about the three flood fills share. \<open>queued\<close> is the set of
  indices written to the queue so far; \<open>bfs_push\<close>, \<open>bfs_scan\<close> and \<open>bfs_step\<close> are the
  common shape of the push, of the four guarded neighbour visits and of the loop body,
  with the test \<open>ok parent neighbour\<close> and the mark \<open>v\<close> as parameters; \<open>nbr4\<close> is the
  neighbour relation the four guards define and \<open>bfs_edges\<close> the edges a search can
  follow from the initial marks \<open>m0\<close>. \<open>bfs_inv\<close> says that the queue holds distinct
  in-range indices, never more than \<open>N\<close>, and that exactly the queued cells carry the
  mark \<open>v\<close> while all others keep their initial mark.
\<close>

definition queued :: "'a bfs_state_scheme \<Rightarrow> nat set" where
  "queued s = set (take (tail s) (queue s))"

definition bfs_push :: "bool \<Rightarrow> nat \<Rightarrow> nat \<Rightarrow> 'a bfs_state_scheme \<Rightarrow> 'a bfs_state_scheme" where
  "bfs_push ok v n s =
     (if truthyU (visited s) n \<or> \<not> ok then s
      else s\<lparr> visited := (visited s)[n := v],
              queue := (queue s)[tail s := n],
              tail := tail s + 1 \<rparr>)"

definition nbr4 :: "nat \<Rightarrow> nat \<Rightarrow> nat \<Rightarrow> nat \<Rightarrow> bool" where
  "nbr4 w h p n \<longleftrightarrow>
     (p mod w > 0 \<and> n = p - 1) \<or> (p mod w < w - 1 \<and> n = p + 1) \<or>
     (p div w > 0 \<and> n = p - w) \<or> (p div w < h - 1 \<and> n = p + w)"

definition bfs_edges :: "nat \<Rightarrow> nat \<Rightarrow> (nat \<Rightarrow> nat \<Rightarrow> bool) \<Rightarrow> nat list \<Rightarrow> (nat \<times> nat) set" where
  "bfs_edges w h ok m0 = {(p, n). nbr4 w h p n \<and> ok p n \<and> m0 ! n = 0}"

definition bfs_scan :: "(nat \<Rightarrow> nat \<Rightarrow> bool) \<Rightarrow> nat \<Rightarrow> nat \<Rightarrow> nat \<Rightarrow> nat
    \<Rightarrow> 'a bfs_state_scheme \<Rightarrow> 'a bfs_state_scheme" where
  "bfs_scan ok v w h idx s =
     (let x = idx mod w;
          y = idx div w;
          s = (if x > 0 then bfs_push (ok idx (idx - 1)) v (idx - 1) s else s);
          s = (if x < w - 1 then bfs_push (ok idx (idx + 1)) v (idx + 1) s else s);
          s = (if y > 0 then bfs_push (ok idx (idx - w)) v (idx - w) s else s);
          s = (if y < h - 1 then bfs_push (ok idx (idx + w)) v (idx + w) s else s)
      in s)"

definition bfs_step :: "(nat \<Rightarrow> 'a bfs_state_scheme \<Rightarrow> 'a bfs_state_scheme) \<Rightarrow> (nat \<Rightarrow> nat \<Rightarrow> bool)
    \<Rightarrow> nat \<Rightarrow> nat \<Rightarrow> nat \<Rightarrow> 'a bfs_state_scheme \<Rightarrow> 'a bfs_state_scheme" where
  "bfs_step pre ok v w h s =
     (case rdN (queue s) (head s) of
        None \<Rightarrow> s\<lparr> head := head s + 1 \<rparr>
      | Some idx \<Rightarrow> bfs_scan ok v w h idx (pre idx (s\<lparr> head := head s + 1 \<rparr>)))"

definition bfs_inv :: "nat \<Rightarrow> nat list \<Rightarrow> nat \<Rightarrow> 'a bfs_state_scheme \<Rightarrow> bool" where
  "bfs_inv N m0 v s \<longleftrightarrow>
     length (visited s) = N \<and> length (queue s) = N \<and> length m0 = N \<and> v \<noteq> 0 \<and>
     head s \<le> tail s \<and> tail s \<le> N \<and> distinct (take (tail s) (queue s)) \<and>
     (\<forall>i\<in>queued s. i < N \<and> m0 ! i = 0) \<and>
     (\<forall>i<N. visited s ! i = (if i \<in> queued s then v else m0 ! i))"

definition bfs_ext :: "nat \<Rightarrow> nat list \<Rightarrow> nat \<Rightarrow> (nat \<times> nat) set \<Rightarrow> nat
    \<Rightarrow> 'a bfs_state_scheme \<Rightarrow> 'a bfs_state_scheme \<Rightarrow> bool" where
  "bfs_ext N m0 v E p s s' \<longleftrightarrow>
     bfs_inv N m0 v s' \<and> head s' = head s \<and> tail s \<le> tail s' \<and>
     take (tail s) (queue s') = take (tail s) (queue s) \<and>
     queued s \<subseteq> queued s' \<and> (\<forall>n\<in>queued s'. n \<in> queued s \<or> (p, n) \<in> E) \<and>
     bfs_state.more s' = bfs_state.more s"

definition bfs_loop_inv :: "nat \<Rightarrow> nat list \<Rightarrow> nat \<Rightarrow> (nat \<times> nat) set \<Rightarrow> nat set
    \<Rightarrow> 'a bfs_state_scheme \<Rightarrow> bool" where
  "bfs_loop_inv N m0 v E S0 s \<longleftrightarrow>
     bfs_inv N m0 v s \<and> S0 \<subseteq> queued s \<and> queued s \<subseteq> E\<^sup>* `` S0 \<and>
     (\<forall>k<head s. \<forall>n. (queue s ! k, n) \<in> E \<longrightarrow> n \<in> queued s)"

section \<open>Hole filling\<close>

text \<open>
  \<open>fillMaskHoles\<close>: \<open>enqueueIfBackground\<close> skips a pixel that is visited or whose mask
  cell is exactly 1; \<open>fill_init\<close> is the two loops over the border, \<open>fill_step\<close> the body
  of the \<open>while\<close> loop, \<open>fill_result\<close> the final loop over a copy of the mask.
\<close>

definition enqueueIfBackground :: "nat list \<Rightarrow> nat \<Rightarrow> bfs_state \<Rightarrow> bfs_state" where
  "enqueueIfBackground msk idx s =
     (if truthyU (visited s) idx \<or> rdN msk idx = Some 1 then s
      else s\<lparr> visited := (visited s)[idx := 1],
              queue := (queue s)[tail s := idx],
              tail := tail s + 1 \<rparr>)"

definition fill_init :: "nat list \<Rightarrow> nat \<Rightarrow> nat \<Rightarrow> bfs_state" where
  "fill_init msk width height =
     (let total = width * height;
          s = \<lparr> visited = replicate total 0, queue = replicate total 0, head = 0, tail = 0 \<rparr>;
          s = fold (\<lambda>x s. enqueueIfBackground msk ((height - 1) * width + x)
                            (enqueueIfBackground msk x s)) [0..<width] s;
          s = fold (\<lambda>y s. enqueueIfBackground msk (y * width + (width - 1))
                            (enqueueIfBackground msk (y * width) s)) [0..<height] s
      in s)"

definition fill_step :: "nat list \<Rightarrow> nat \<Rightarrow> nat \<Rightarrow> bfs_state \<Rightarrow> bfs_state" where
  "fill_step msk width height s =
     (case rdN (queue s) (head s) of
        None \<Rightarrow> s\<lparr> head := head s + 1 \<rparr>
      | Some idx \<Rightarrow>
          let s = s\<lparr> head := head s + 1 \<rparr>;
              x = idx mod width;
              y = idx div width;
              s = (if x > 0 then enqueueIfBackground msk (idx - 1) s else s);
              s = (if x < width - 1 then enqueueIfBackground msk (idx + 1) s else s);
              s = (if y > 0 then enqueueIfBackground msk (idx - width) s else s);
              s = (if y < height - 1 then enqueueIfBackground msk (idx + width) s else s)
          in s)"

definition fill_result :: "nat list \<Rightarrow> nat \<Rightarrow> nat list \<Rightarrow> nat list" where
  "fill_result msk n vis =
     fold (\<lambda>i result. if rdN msk i = Some 0 \<and> \<not> truthyU vis i then result[i := 1] else result)
       [0..<n] msk"

definition fillMaskHoles :: "nat list \<Rightarrow> nat \<Rightarrow> nat \<Rightarrow> nat list option" where
  "fillMaskHoles msk width height =
     map_option (\<lambda>s. fill_result msk (width * height) (visited s))
       (while_option (\<lambda>s. head s < tail s) (fill_step msk width height)
          (fill_init msk width height))"

text \<open>
  Two pixels are 4-adjacent when they are in the same row and neighbouring columns, or in
  the same column and neighbouring rows. A border pixel lies in the first or last row or
  column. A pixel is connected to the border when a path of 4-adjacent pixels whose mask
  cells are all 0 leads to it from a border pixel whose cell is 0.
\<close>

definition adj4 :: "nat \<Rightarrow> nat \<Rightarrow> nat \<Rightarrow> nat \<Rightarrow> bool" where
  "adj4 w h i j \<longleftrightarrow> i < w * h \<and> j < w * h \<and>
     ((i div w = j div w \<and> (i mod w + 1 = j mod w \<or> j mod w + 1 = i mod w)) \<or>
      (i mod w = j mod w \<and> (i div w + 1 = j div w \<or> j div w + 1 = i div w)))"

definition border_px :: "nat \<Rightarrow> nat \<Rightarrow> nat \<Rightarrow> bool" where
  "border_px w h i \<longleftrightarrow> i < w * h \<and>
     (i div w = 0 \<or> i div w = h - 1 \<or> i mod w = 0 \<or> i mod w = w - 1)"

definition zero_adj :: "nat list \<Rightarrow> nat \<Rightarrow> nat \<Rightarrow> (nat \<times> nat) set" where
  "zero_adj msk w h = {(i, j). adj4 w h i j \<and> msk ! i = 0 \<and> msk ! j = 0}"

definition border_connected :: "nat list \<Rightarrow> nat \<Rightarrow> nat \<Rightarrow> nat \<Rightarrow> bool" where
  "border_connected msk w h i \<longleftrightarrow>
     (\<exists>b. border_px w h b \<and> msk ! b = 0 \<and> (b, i) \<in> (zero_adj msk w h)\<^sup>*)"

text \<open>
  The mask of the hole-closing test: 1 on the pixels within squared distance \<open>r2\<close> of
  the centre (\<open>cx\<close>, \<open>cy\<close>), except for the 3 by 3 hole around the centre, 0 elsewhere.
\<close>

definition in_disk :: "nat \<Rightarrow> nat \<Rightarrow> nat \<Rightarrow> nat \<Rightarrow> nat \<Rightarrow> bool" where
  "in_disk w cx cy r2 i \<longleftrightarrow>
     (int (i mod w) - int cx) * (int (i mod w) - int cx) +
     (int (i div w) - int cy) * (int (i div w) - int cy) \<le> int r2"

definition in_hole :: "nat \<Rightarrow> nat \<Rightarrow> nat \<Rightarrow> nat \<Rightarrow> bool" where
  "in_hole w cx cy i \<longleftrightarrow>
     \<bar>int (i mod w) - int cx\<bar> \<le> 1 \<and> \<bar>int (i div w) - int cy\<bar> \<le> 1"

definition disk_with_hole :: "nat \<Rightarrow> nat \<Rightarrow> nat \<Rightarrow> nat \<Rightarrow> nat \<Rightarrow> nat list" where
  "disk_with_hole w h cx cy r2 =
     map (\<lambda>i. if in_disk w cx cy r2 i \<and> \<not> in_hole w cx cy i then 1 else 0) [0..<w * h]"


text \<open>The border pixels in the order \<open>fill_init\<close> visits them.\<close>

definition border_list :: "nat \<Rightarrow> nat \<Rightarrow> nat list" where
  "border_list w h =
     concat (map (\<lambda>x. [x, (h - 1) * w + x]) [0..<w]) @
     concat (map (\<lambda>y. [y * w, y * w + (w - 1)]) [0..<h])"

section \<open>Keeping the main foreground regions\<close>

text \<open>
  \<open>keepMainForegroundRegions\<close> labels the 4-connected components of the foreground in scan
  order, each by a flood fill that also counts the pixels it dequeues (\<open>area\<close>) and records
  whether one of them lies in the centre box (\<open>touchesCenter\<close>). The flood fill reuses the
  state of the other searches: \<open>labels\<close> takes the place of \<open>visited\<close>, and the mark is the
  number of the component. \<open>in_center\<close> is the test of the source: column and row both
  between the floor of a quarter and the ceiling of three quarters of the width and of the
  height, ends included.
\<close>

record label_state = bfs_state +
  area :: nat
  touchesCenter :: bool

definition in_center :: "nat \<Rightarrow> nat \<Rightarrow> nat \<Rightarrow> bool" where
  "in_center width height idx =
     (let centerMinX = \<lfloor>real width * 0.25\<rfloor>;
          centerMaxX = \<lceil>real width * 0.75\<rceil>;
          centerMinY = \<lfloor>real height * 0.25\<rfloor>;
          centerMaxY = \<lceil>real height * 0.75\<rceil>;
          x = int (idx mod width);
          y = int (idx div width)
      in x \<ge> centerMinX \<and> x \<le> centerMaxX \<and> y \<ge> centerMinY \<and> y \<le> centerMaxY)"

text \<open>
  \<open>tryLabel\<close> returns at once when the mask cell is falsy or the label is not exactly 0;
  a cell beyond the end of \<open>labels\<close> reads \<open>undefined\<close>, which is not 0.
\<close>

definition tryLabel :: "nat list \<Rightarrow> nat \<Rightarrow> nat \<Rightarrow> label_state \<Rightarrow> label_state" where
  "tryLabel msk componentId nIdx s =
     (if \<not> truthyU msk nIdx \<or> rdN (visited s) nIdx \<noteq> Some 0 then s
      else s\<lparr> visited := (visited s)[nIdx := componentId],
              queue := (queue s)[tail s := nIdx],
              tail := tail s + 1 \<rparr>)"

definition label_step :: "nat list \<Rightarrow> nat \<Rightarrow> nat \<Rightarrow> nat \<Rightarrow> label_state \<Rightarrow> label_state" where
  "label_step msk width height componentId s =
     (case rdN (queue s) (head s) of
        None \<Rightarrow> s\<lparr> head := head s + 1, area := area s + 1 \<rparr>
      | Some idx \<Rightarrow>
          let s = s\<lparr> head := head s + 1, area := area s + 1 \<rparr>;
              x = idx mod width;
              y = idx div width;
              s = (if in_center width height idx then s\<lparr> touchesCenter := True \<rparr> else s);
              s = (if x > 0 then tryLabel msk componentId (idx - 1) s else s);
              s = (if x < width - 1 then tryLabel msk componentId (idx + 1) s else s);
              s = (if y > 0 then tryLabel msk componentId (idx - width) s else s);
              s = (if y < height - 1 then tryLabel msk componentId (idx + width) s else s)
          in s)"

text \<open>
  The state of the loop over the pixels. \<open>componentAreas\<close> and \<open>componentTouchesCenter\<close>
  are plain arrays assigned by index, hence maps from indices; a missing entry reads
  \<open>undefined\<close>. \<open>label_component\<close> is the body of the loop, \<open>label_components\<close> the loop.
\<close>

record components =
  labels :: "nat list"
  label_queue :: "nat list"
  componentId :: nat
  componentAreas :: "nat \<rightharpoonup> nat"
  componentTouchesCenter :: "nat \<rightharpoonup> bool"

definition label_component :: "nat list \<Rightarrow> nat \<Rightarrow> nat \<Rightarrow> nat \<Rightarrow> components \<Rightarrow> components option" where
  "label_component msk width height i c =
     (if \<not> truthyU msk i \<or> rdN (labels c) i \<noteq> Some 0 then Some c
      else
        let cid = componentId c + 1;
            s0 = \<lparr> visited = (labels c)[i := cid], queue = (label_queue c)[0 := i],
                   head = 0, tail = 1, area = 0, touchesCenter = False \<rparr>
        in map_option
             (\<lambda>s. \<lparr> labels = visited s, label_queue = queue s, componentId = cid,
                     componentAreas = (componentAreas c)(cid \<mapsto> area s),
                     componentTouchesCenter = (componentTouchesCenter c)(cid \<mapsto> touchesCenter s) \<rparr>)
             (while_option (\<lambda>s. head s < tail s) (label_step msk width height cid) s0))"

definition label_components :: "nat list \<Rightarrow> nat \<Rightarrow> nat \<Rightarrow> components option" where
  "label_components msk width height =
     (let total = width * height
      in fold (\<lambda>i c. Option.bind c (label_component msk width height i)) [0..<total]
           (Some \<lparr> labels = replicate total 0, label_queue = replicate total 0, componentId = 0,
                    componentAreas = [0 \<mapsto> 0], componentTouchesCenter = [0 \<mapsto> False] \<rparr>))"

text \<open>
  The choice of the best component (the first one with the greatest score, the comparison
  being strict), the \<open>keep\<close> flags and the result. With at most one component the mask
  itself is returned.
\<close>

definition component_score :: "components \<Rightarrow> nat \<Rightarrow> nat \<Rightarrow> jsnum" where
  "component_score c n ident =
     jadd (to_num (componentAreas c ident))
       (Some (if componentTouchesCenter c ident = Some True then real n * 0.2 else 0))"

definition best_component :: "components \<Rightarrow> nat \<Rightarrow> nat \<times> jsnum" where
  "best_component c n =
     fold (\<lambda>ident (bestId, bestScore).
             let score = component_score c n ident
             in if jgt score bestScore then (ident, score) else (bestId, bestScore))
       [1..<componentId c + 1] (1, Some (- 1))"

definition keep_flags :: "components \<Rightarrow> nat \<Rightarrow> nat \<Rightarrow> nat list" where
  "keep_flags c n bestId =
     (let minArea = max 120 (js_round (real n * 0.0018));
          bestArea = componentAreas c bestId;
          keep = (replicate (componentId c + 1) 0)[bestId := 1]
      in fold (\<lambda>ident keep.
                 if ident = bestId then keep
                 else if componentTouchesCenter c ident = Some True \<and>
                         jge (to_num (componentAreas c ident))
                           (jmax (Some (real_of_int minArea))
                              (jround (jmul (to_num bestArea) (Some 0.12))))
                 then keep[ident := 1] else keep)
           [1..<componentId c + 1] keep)"

definition keepMainForegroundRegions :: "nat list \<Rightarrow> nat \<Rightarrow> nat \<Rightarrow> nat list option" where
  "keepMainForegroundRegions msk width height =
     map_option
       (\<lambda>c. if componentId c \<le> 1 then msk
            else
              let total = width * height;
                  bestId = fst (best_component c total);
                  keep = keep_flags c total bestId
              in fold (\<lambda>i result.
                         case rdN (labels c) i of
                           None \<Rightarrow> result[i := 0]
                         | Some ident \<Rightarrow> result[i := (if ident > 0 \<and> truthyU keep ident then 1 else 0)])
                   [0..<total] (replicate total 0))
       (label_components msk width height)"

text \<open>
  The notions the statement about \<open>keepMainForegroundRegions\<close> uses. \<open>label_pre\<close> is the
  part of the loop body before the four neighbour visits. Two foreground pixels are
  joined by \<open>fg_adj\<close> when they are 4-adjacent; \<open>component_of\<close> is the component of a
  pixel, \<open>comp_area\<close> its size, \<open>comp_touches\<close> whether it meets the centre box and
  \<open>comp_score\<close> its score. \<open>label_class\<close> is the set of pixels carrying a label,
  \<open>class_score\<close> the score computed from it, and \<open>label_inv\<close> the invariant of the
  labelling loop after \<open>k\<close> pixels: the label classes are whole components, every
  foreground pixel below \<open>k\<close> is labelled, the recorded areas and centre flags are those
  of the classes, and a smaller label starts at a smaller pixel.
\<close>

definition label_pre :: "nat \<Rightarrow> nat \<Rightarrow> nat \<Rightarrow> label_state \<Rightarrow> label_state" where
  "label_pre w h idx t =
     (let t = t\<lparr> area := area t + 1 \<rparr>
      in if in_center w h idx then t\<lparr> touchesCenter := True \<rparr> else t)"

definition fg_adj :: "nat list \<Rightarrow> nat \<Rightarrow> nat \<Rightarrow> (nat \<times> nat) set" where
  "fg_adj msk w h = {(i, j). adj4 w h i j \<and> msk ! i \<noteq> 0 \<and> msk ! j \<noteq> 0}"

definition component_of :: "nat list \<Rightarrow> nat \<Rightarrow> nat \<Rightarrow> nat \<Rightarrow> nat set" where
  "component_of msk w h i = (fg_adj msk w h)\<^sup>* `` {i}"

definition comp_area :: "nat list \<Rightarrow> nat \<Rightarrow> nat \<Rightarrow> nat \<Rightarrow> nat" where
  "comp_area msk w h i = card (component_of msk w h i)"

definition comp_touches :: "nat list \<Rightarrow> nat \<Rightarrow> nat \<Rightarrow> nat \<Rightarrow> bool" where
  "comp_touches msk w h i \<longleftrightarrow> (\<exists>j\<in>component_of msk w h i. in_center w h j)"

definition comp_score :: "nat list \<Rightarrow> nat \<Rightarrow> nat \<Rightarrow> nat \<Rightarrow> real" where
  "comp_score msk w h i =
     real (comp_area msk w h i) + (if comp_touches msk w h i then real (w * h) * 0.2 else 0)"

definition label_class :: "nat list \<Rightarrow> nat \<Rightarrow> nat \<Rightarrow> nat set" where
  "label_class ls N ident = {j. j < N \<and> ls ! j = ident}"

definition label_inv :: "nat list \<Rightarrow> nat \<Rightarrow> nat \<Rightarrow> nat \<Rightarrow> components \<Rightarrow> bool" where
  "label_inv msk w h k c \<longleftrightarrow>
     length (labels c) = w * h \<and> length (label_queue c) = w * h \<and>
     (\<forall>j<w * h. labels c ! j \<noteq> 0 \<longrightarrow> msk ! j \<noteq> 0 \<and> labels c ! j \<le> componentId c) \<and>
     (\<forall>j<k. msk ! j \<noteq> 0 \<longrightarrow> labels c ! j \<noteq> 0) \<and>
     (\<forall>j<w * h. labels c ! j \<noteq> 0 \<longrightarrow>
        label_class (labels c) (w * h) (labels c ! j) = component_of msk w h j) \<and>
     (\<forall>a. 1 \<le> a \<and> a \<le> componentId c \<longrightarrow>
        (\<exists>j<k. j \<in> label_class (labels c) (w * h) a) \<and>
        componentAreas c a = Some (card (label_class (labels c) (w * h) a)) \<and>
        componentTouchesCenter c a =
          Some (\<exists>j\<in>label_class (labels c) (w * h) a. in_center w h j)) \<and>
     (\<forall>a b. 1 \<le> a \<and> a < b \<and> b \<le> componentId c \<longrightarrow>
        (\<exists>s\<in>label_class (labels c) (w * h) a. \<forall>j\<in>label_class (labels c) (w * h) b. s < j))"

definition class_score :: "nat \<Rightarrow> nat \<Rightarrow> nat list \<Rightarrow> nat \<Rightarrow> real" where
  "class_score w h ls a =
     real (card (label_class ls (w * h) a)) +
     (if \<exists>j\<in>label_class ls (w * h) a. in_center w h j then real (w * h) * 0.2 else 0)"

text \<open>
  \<open>single_component\<close>: all foreground pixels are connected. \<open>best_pixel\<close>: a foreground pixel
  of greatest score, the first one in scan order among the pixels of greatest score.
  \<open>min_area\<close> and \<open>kept\<close> are the retention rule, relative to the best pixel.
  \<open>two_blobs\<close>: the foreground consists of the components of \<open>b\<close> and of \<open>s\<close>, the latter
  smaller and away from the centre box.
\<close>

definition single_component :: "nat list \<Rightarrow> nat \<Rightarrow> nat \<Rightarrow> bool" where
  "single_component msk w h \<longleftrightarrow>
     (\<forall>i<w * h. \<forall>j<w * h. msk ! i \<noteq> 0 \<and> msk ! j \<noteq> 0 \<longrightarrow> i \<in> component_of msk w h j)"

definition best_pixel :: "nat list \<Rightarrow> nat \<Rightarrow> nat \<Rightarrow> nat \<Rightarrow> bool" where
  "best_pixel msk w h b \<longleftrightarrow>
     b < w * h \<and> msk ! b \<noteq> 0 \<and>
     (\<forall>j<w * h. msk ! j \<noteq> 0 \<longrightarrow>
        comp_score msk w h j \<le> comp_score msk w h b \<and>
        (comp_score msk w h j = comp_score msk w h b \<longrightarrow> b \<le> j))"

definition min_area :: "nat \<Rightarrow> nat \<Rightarrow> int" where
  "min_area w h = max 120 (js_round (real (w * h) * 0.0018))"

definition kept :: "nat list \<Rightarrow> nat \<Rightarrow> nat \<Rightarrow> nat \<Rightarrow> nat \<Rightarrow> bool" where
  "kept msk w h b i \<longleftrightarrow>
     msk ! i \<noteq> 0 \<and>
     (i \<in> component_of msk w h b \<or>
      (comp_touches msk w h i \<and>
       real (comp_area msk w h i) \<ge>
         max (real_of_int (min_area w h))
             (real_of_int (js_round (real (comp_area msk w h b) * 0.12)))))"

definition two_blobs :: "nat list \<Rightarrow> nat \<Rightarrow> nat \<Rightarrow> nat \<Rightarrow> nat \<Rightarrow> bool" where
  "two_blobs msk w h b s \<longleftrightarrow>
     b < w * h \<and> s < w * h \<and> msk ! b \<noteq> 0 \<and> msk ! s \<noteq> 0 \<and>
     (\<forall>j<w * h. msk ! j \<noteq> 0 \<longrightarrow>
        j \<in> component_of msk w h b \<or> j \<in> component_of msk w h s) \<and>
     comp_area msk w h s < comp_area msk w h b \<and> \<not> comp_touches msk w h s"

section \<open>Facts about numbers\<close>

lemma jsbin_Some [simp]: "jsbin f (Some x) (Some y) = Some (f x y)"
  by (simp add: jsbin_def)

lemma jsbin_None [simp]: "jsbin f None b = None" "jsbin f a None = None"
  by (simp_all add: jsbin_def split: option.splits)

lemma jle_Some [simp]: "jle (Some x) (Some y) = (x \<le> y)"
  by (simp add: jle_def)

lemma jle_None [simp]: "jle None b = False" "jle a None = False"
  by (simp_all add: jle_def split: option.splits)

lemma jlt_Some [simp]: "jlt (Some x) (Some y) = (x < y)"
  by (simp add: jlt_def)

lemma jlt_None [simp]: "jlt None b = False" "jlt a None = False"
  by (simp_all add: jlt_def split: option.splits)

section \<open>The constructor's default\<close>

text \<open>
  C10. Constructing the remover with \<open>featherAmount\<close> equal to 0 stores 2, because 0 is
  falsy and \<open>||\<close> replaces it by the default; the blur radius is then 3 and not the 1
  that a stored 0 would give. Every strictly positive \<open>featherAmount\<close> is stored as it is.
\<close>

theorem constructor_featherAmount_default:
  "(opt_featherAmount options = JNumber (Some 0) \<longrightarrow>
      featherAmount (constructor options) = Some 2 \<and>
      blurRadius (constructor options) = Some 3 \<and>
      blurRadius ((constructor options)\<lparr>featherAmount := Some 0\<rparr>) = Some 1) \<and>
   (0 < x \<and> opt_featherAmount options = JNumber (Some x) \<longrightarrow>
      featherAmount (constructor options) = Some x)"
  by (simp add: constructor_def or_default_def blurRadius_def jmax_def jadd_def)

theorem constructor_featherAmount_default_witness:
  "featherAmount (constructor \<lparr>opt_threshold = JUndefined,
      opt_featherAmount = JNumber (Some 0), opt_maxProcessingSide = JUndefined\<rparr>) = Some 2 \<and>
   blurRadius (constructor \<lparr>opt_threshold = JUndefined,
      opt_featherAmount = JNumber (Some 0), opt_maxProcessingSide = JUndefined\<rparr>) = Some 3 \<and>
   featherAmount (constructor \<lparr>opt_threshold = JUndefined,
      opt_featherAmount = JNumber (Some 5), opt_maxProcessingSide = JUndefined\<rparr>) = Some 5"
  using constructor_featherAmount_default
      [of "\<lparr>opt_threshold = JUndefined, opt_featherAmount = JNumber (Some 0),
            opt_maxProcessingSide = JUndefined\<rparr>" 1]
    constructor_featherAmount_default
      [of "\<lparr>opt_threshold = JUndefined, opt_featherAmount = JNumber (Some 5),
            opt_maxProcessingSide = JUndefined\<rparr>" 5]
  by simp

section \<open>Crop bounds are the tight bounding box\<close>

lemma fold_nested:
  "fold (\<lambda>y. fold (f y) xs) ys = fold (\<lambda>(y, x). f y x) (List.product ys xs)"
  by (induction ys) (auto simp: fold_map comp_def)


lemma Min_insert_min:
  "finite A \<Longrightarrow> Min (insert (min a b) A) = Min (insert a (insert (b::int) A))"
  by (cases "A = {}") (simp_all add: min.assoc)

lemma Max_insert_max:
  "finite A \<Longrightarrow> Max (insert (max a b) A) = Max (insert a (insert (b::int) A))"
  by (cases "A = {}") (simp_all add: max.assoc)

lemma crop_pixel_fields:
  "c_top (crop_pixel m w y x b) = (if crop_hit m w (y, x) then min (int y) (c_top b) else c_top b)"
  "c_bottom (crop_pixel m w y x b) = (if crop_hit m w (y, x) then max (int y) (c_bottom b) else c_bottom b)"
  "c_left (crop_pixel m w y x b) = (if crop_hit m w (y, x) then min (int x) (c_left b) else c_left b)"
  "c_right (crop_pixel m w y x b) = (if crop_hit m w (y, x) then max (int x) (c_right b) else c_right b)"
  by (simp_all add: crop_pixel_def crop_hit_def Let_def min_def max_def)


lemma fold_min_acc:
  fixes g :: "'s \<Rightarrow> int"
  assumes "\<And>p b. g (step p b) = (if hit p then min (k p) (g b) else g b)"
  shows "g (fold step ps b) = Min (insert (g b) (k ` {p \<in> set ps. hit p}))"
proof (induction ps arbitrary: b)
  case Nil
  show ?case by simp
next
  case (Cons p ps)
  have fin: "finite (k ` {q \<in> set ps. hit q})" by simp
  show ?case
  proof (cases "hit p")
    case True
    then have "{q \<in> set (p # ps). hit q} = insert p {q \<in> set ps. hit q}"
      by auto
    then show ?thesis
      using True Cons.IH [of "step p b"] Min_insert_min [OF fin, of "k p" "g b"]
      by (simp add: assms insert_commute)
  next
    case False
    then have "{q \<in> set (p # ps). hit q} = {q \<in> set ps. hit q}"
      by auto
    then show ?thesis
      using False Cons.IH [of "step p b"] by (simp add: assms)
  qed
qed

lemma fold_max_acc:
  fixes g :: "'s \<Rightarrow> int"
  assumes "\<And>p b. g (step p b) = (if hit p then max (k p) (g b) else g b)"
  shows "g (fold step ps b) = Max (insert (g b) (k ` {p \<in> set ps. hit p}))"
proof (induction ps arbitrary: b)
  case Nil
  show ?case by simp
next
  case (Cons p ps)
  have fin: "finite (k ` {q \<in> set ps. hit q})" by simp
  show ?case
  proof (cases "hit p")
    case True
    then have "{q \<in> set (p # ps). hit q} = insert p {q \<in> set ps. hit q}"
      by auto
    then show ?thesis
      using True Cons.IH [of "step p b"] Max_insert_max [OF fin, of "k p" "g b"]
      by (simp add: assms insert_commute)
  next
    case False
    then have "{q \<in> set (p # ps). hit q} = {q \<in> set ps. hit q}"
      by auto
    then show ?thesis
      using False Cons.IH [of "step p b"] by (simp add: assms)
  qed
qed

lemma crop_fold_top:
  "c_top (fold (\<lambda>(y, x). crop_pixel m w y x) ps b) =
     Min (insert (c_top b) ((\<lambda>p. int (fst p)) ` {p \<in> set ps. crop_hit m w p}))"
  by (rule fold_min_acc [where hit = "crop_hit m w" and k = "\<lambda>p. int (fst p)"])
     (simp add: crop_pixel_fields split: prod.splits)

lemma crop_fold_bottom:
  "c_bottom (fold (\<lambda>(y, x). crop_pixel m w y x) ps b) =
     Max (insert (c_bottom b) ((\<lambda>p. int (fst p)) ` {p \<in> set ps. crop_hit m w p}))"
  by (rule fold_max_acc [where hit = "crop_hit m w" and k = "\<lambda>p. int (fst p)"])
     (simp add: crop_pixel_fields split: prod.splits)

lemma crop_fold_left:
  "c_left (fold (\<lambda>(y, x). crop_pixel m w y x) ps b) =
     Min (insert (c_left b) ((\<lambda>p. int (snd p)) ` {p \<in> set ps. crop_hit m w p}))"
  by (rule fold_min_acc [where hit = "crop_hit m w" and k = "\<lambda>p. int (snd p)"])
     (simp add: crop_pixel_fields split: prod.splits)

lemma crop_fold_right:
  "c_right (fold (\<lambda>(y, x). crop_pixel m w y x) ps b) =
     Max (insert (c_right b) ((\<lambda>p. int (snd p)) ` {p \<in> set ps. crop_hit m w p}))"
  by (rule fold_max_acc [where hit = "crop_hit m w" and k = "\<lambda>p. int (snd p)"])
     (simp add: crop_pixel_fields split: prod.splits)

lemma crop_scan_fields:
  "c_top (crop_scan m w h) = Min (insert (int h) ((\<lambda>p. int (fst p)) ` crop_hits m w h))"
  "c_bottom (crop_scan m w h) = Max (insert (-1) ((\<lambda>p. int (fst p)) ` crop_hits m w h))"
  "c_left (crop_scan m w h) = Min (insert (int w) ((\<lambda>p. int (snd p)) ` crop_hits m w h))"
  "c_right (crop_scan m w h) = Max (insert (-1) ((\<lambda>p. int (snd p)) ` crop_hits m w h))"
  unfolding crop_scan_def fold_nested crop_hits_def
  by (simp_all only: crop_fold_top crop_fold_bottom crop_fold_left crop_fold_right
        crop_bounds.simps)

lemma crop_hits_finite: "finite (crop_hits m w h)"
  by (simp add: crop_hits_def)

lemma crop_hits_bounds: "(y, x) \<in> crop_hits m w h \<Longrightarrow> y < h \<and> x < w"
  by (auto simp: crop_hits_def)


lemma crop_hits_qualifying:
  assumes "length matte = width * height" and "None \<notin> set matte"
  shows "crop_hits matte width height = (\<lambda>(x, y). (y, x)) ` qualifying matte width height"
proof -
  have fin: "\<exists>v. rdF matte (y * width + x) = Some v" if "x < width" "y < height" for x y
  proof -
    have "y * width + x < width * height"
    proof -
      have "y * width + x < y * width + width" using that by simp
      also have "\<dots> = (y + 1) * width" by simp
      also have "\<dots> \<le> height * width" using that by (intro mult_le_mono1) simp
      finally show ?thesis by (simp add: mult.commute)
    qed
    then have lt: "y * width + x < length matte" using assms(1) by simp
    then have "matte ! (y * width + x) \<noteq> None" using assms(2) by (metis nth_mem)
    then show ?thesis using lt by (simp add: rdF_def)
  qed
  show ?thesis
  proof (rule set_eqI)
    fix p :: "nat \<times> nat"
    obtain y x where p: "p = (y, x)" by (cases p)
    show "p \<in> crop_hits matte width height \<longleftrightarrow>
          p \<in> (\<lambda>(x, y). (y, x)) ` qualifying matte width height"
    proof (cases "x < width \<and> y < height")
      case True
      then obtain v where "rdF matte (y * width + x) = Some v" using fin by blast
      then show ?thesis using True p
        by (auto simp: crop_hits_def crop_hit_def qualifying_def jgt_def image_iff)
    next
      case False
      then show ?thesis using p
        by (auto simp: crop_hits_def qualifying_def image_iff)
    qed
  qed
qed

lemma int_Min_image:
  "finite A \<Longrightarrow> A \<noteq> {} \<Longrightarrow> Min (int ` A) = int (Min A)"
  by (rule Min_eqI) (auto intro: Min_le Min_in)

lemma int_Max_image:
  "finite A \<Longrightarrow> A \<noteq> {} \<Longrightarrow> Max (int ` A) = int (Max A)"
  by (rule Max_eqI) (auto intro: Max_ge Max_in)

lemma qualifying_finite: "finite (qualifying matte width height)"
proof -
  have "qualifying matte width height \<subseteq> {..<width} \<times> {..<height}"
    by (auto simp: qualifying_def)
  then show ?thesis by (rule finite_subset) simp
qed

lemma crop_general:
  assumes len: "length matte = width * height" and fin: "None \<notin> set matte"
  shows "computeCropBoundsFromMask matte width height =
     (if qualifying matte width height = {} then None
      else Some \<lparr> c_top = int (Min (snd ` qualifying matte width height)),
                  c_bottom = int (Max (snd ` qualifying matte width height)),
                  c_left = int (Min (fst ` qualifying matte width height)),
                  c_right = int (Max (fst ` qualifying matte width height)) \<rparr>)"
proof -
  let ?Q = "qualifying matte width height"
  have hits: "crop_hits matte width height = (\<lambda>(x, y). (y, x)) ` ?Q"
    by (rule crop_hits_qualifying [OF len fin])
  have ys: "(\<lambda>p. int (fst p)) ` crop_hits matte width height = int ` snd ` ?Q"
    unfolding hits by (auto simp: image_iff split: prod.splits) force+
  have xs: "(\<lambda>p. int (snd p)) ` crop_hits matte width height = int ` fst ` ?Q"
    unfolding hits by (auto simp: image_iff split: prod.splits) force+
  note F = crop_scan_fields [of matte width height, unfolded ys xs]
  show ?thesis
  proof (cases "?Q = {}")
    case True
    then show ?thesis
      by (simp add: computeCropBoundsFromMask_def Let_def F)
  next
    case False
    have finQ: "finite ?Q" by (rule qualifying_finite)
    have fy: "finite (snd ` ?Q)" "snd ` ?Q \<noteq> {}" and fx: "finite (fst ` ?Q)" "fst ` ?Q \<noteq> {}"
      using finQ False by simp_all
    have ylt: "Min (snd ` ?Q) < height"
      using Min_in [OF fy] by (auto simp: qualifying_def)
    have xlt: "Min (fst ` ?Q) < width"
      using Min_in [OF fx] by (auto simp: qualifying_def)
    have iy: "finite (int ` snd ` ?Q)" "int ` snd ` ?Q \<noteq> {}"
      and ix: "finite (int ` fst ` ?Q)" "int ` fst ` ?Q \<noteq> {}"
      using fy fx by simp_all
    have t: "c_top (crop_scan matte width height) = int (Min (snd ` ?Q))"
      unfolding F Min_insert [OF iy] int_Min_image [OF fy] using ylt by simp
    have l: "c_left (crop_scan matte width height) = int (Min (fst ` ?Q))"
      unfolding F Min_insert [OF ix] int_Min_image [OF fx] using xlt by simp
    have b: "c_bottom (crop_scan matte width height) = int (Max (snd ` ?Q))"
      unfolding F Max_insert [OF iy] int_Max_image [OF fy] by simp
    have r: "c_right (crop_scan matte width height) = int (Max (fst ` ?Q))"
      unfolding F Max_insert [OF ix] int_Max_image [OF fx] by simp
    have le: "Min (snd ` ?Q) \<le> Max (snd ` ?Q)" "Min (fst ` ?Q) \<le> Max (fst ` ?Q)"
      using fy fx by (simp_all add: Min_le)
    have eq: "crop_scan matte width height =
        \<lparr> c_top = int (Min (snd ` ?Q)), c_bottom = int (Max (snd ` ?Q)),
          c_left = int (Min (fst ` ?Q)), c_right = int (Max (fst ` ?Q)) \<rparr>"
      using t l b r by (cases "crop_scan matte width height") simp
    show ?thesis
      using False le by (simp add: computeCropBoundsFromMask_def Let_def eq)
  qed
qed


lemma rect_matte_qualifying:
  assumes "50 < width" and "40 < height"
  shows "qualifying (rect_matte width height) width height = {10..50} \<times> {10..40}"
proof (rule set_eqI)
  fix p :: "nat \<times> nat"
  obtain x y where p: "p = (x, y)" by (cases p)
  show "p \<in> qualifying (rect_matte width height) width height \<longleftrightarrow> p \<in> {10..50} \<times> {10..40}"
  proof (cases "x < width \<and> y < height")
    case True
    have "y * width + x < y * width + width" using True by simp
    also have "\<dots> = (y + 1) * width" by simp
    also have "\<dots> \<le> height * width" using True by (intro mult_le_mono1) simp
    finally have lt: "y * width + x < width * height" by (simp add: mult.commute)
    have md: "(y * width + x) mod width = x" "(y * width + x) div width = y"
      using True by simp_all
    show ?thesis
      using True lt md p
      by (simp add: qualifying_def rect_matte_def rdF_def jgt_def)
  next
    case False
    then show ?thesis using p assms by (auto simp: qualifying_def)
  qed
qed

text \<open>
  C3. On a matte of finite numbers, one per pixel, \<open>computeCropBoundsFromMask\<close> returns
  \<open>null\<close> when no value is strictly greater than 0.08, and otherwise the smallest and
  largest row and column of the pixels whose value is strictly greater than 0.08, with
  top \<open>\<le>\<close> bottom and left \<open>\<le>\<close> right. For the matte that is 1 on columns 10 to 50 of
  rows 10 to 40 and 0 elsewhere it returns top 10, bottom 40, left 10, right 50.
  (The source skips a pixel when \<open>value <= 0.08\<close>, so a \<open>NaN\<close> cell would count as
  qualifying; the mattes of this program hold finite numbers only.)
\<close>

theorem computeCropBoundsFromMask_tight:
  "(length matte = width * height \<and> None \<notin> set matte \<longrightarrow>
      computeCropBoundsFromMask matte width height =
        (if qualifying matte width height = {} then None
         else Some \<lparr> c_top = int (Min (snd ` qualifying matte width height)),
                     c_bottom = int (Max (snd ` qualifying matte width height)),
                     c_left = int (Min (fst ` qualifying matte width height)),
                     c_right = int (Max (fst ` qualifying matte width height)) \<rparr>) \<and>
      (\<forall>b. computeCropBoundsFromMask matte width height = Some b \<longrightarrow>
         c_top b \<le> c_bottom b \<and> c_left b \<le> c_right b)) \<and>
   (50 < width \<and> 40 < height \<longrightarrow>
      computeCropBoundsFromMask (rect_matte width height) width height =
        Some \<lparr> c_top = 10, c_bottom = 40, c_left = 10, c_right = 50 \<rparr>)"
proof (intro conjI impI allI)
  assume a: "length matte = width * height \<and> None \<notin> set matte"
  then show "computeCropBoundsFromMask matte width height =
        (if qualifying matte width height = {} then None
         else Some \<lparr> c_top = int (Min (snd ` qualifying matte width height)),
                     c_bottom = int (Max (snd ` qualifying matte width height)),
                     c_left = int (Min (fst ` qualifying matte width height)),
                     c_right = int (Max (fst ` qualifying matte width height)) \<rparr>)"
    by (simp add: crop_general)
next
  fix b
  assume "computeCropBoundsFromMask matte width height = Some b"
  then have "\<not> (c_bottom b < c_top b \<or> c_right b < c_left b)"
    by (auto simp: computeCropBoundsFromMask_def Let_def split: if_splits)
  then show "c_top b \<le> c_bottom b" "c_left b \<le> c_right b" by simp_all
next
  assume a: "50 < width \<and> 40 < height"
  have len: "length (rect_matte width height) = width * height"
    by (simp add: rect_matte_def)
  have fin: "None \<notin> set (rect_matte width height)"
    by (auto simp: rect_matte_def)
  have ne: "{10..50::nat} \<noteq> {}" "{10..40::nat} \<noteq> {}" by simp_all
  have mm: "Min {10..40::nat} = 10" "Max {10..40::nat} = 40"
    "Min {10..50::nat} = 10" "Max {10..50::nat} = 50"
    by (auto intro!: Min_eqI Max_eqI)
  show "computeCropBoundsFromMask (rect_matte width height) width height =
        Some \<lparr> c_top = 10, c_bottom = 40, c_left = 10, c_right = 50 \<rparr>"
    using a ne
    by (simp add: crop_general [OF len fin] rect_matte_qualifying mm)
qed

theorem computeCropBoundsFromMask_tight_witness:
  "length [Some 0, Some 1, Some 0, Some (0::real)] = 2 * 2 \<and>
   None \<notin> set [Some 0, Some 1, Some 0, Some (0::real)] \<and>
   qualifying [Some 0, Some 1, Some 0, Some 0] 2 2 = {(1, 0)} \<and>
   computeCropBoundsFromMask [Some 0, Some 1, Some 0, Some 0] 2 2 =
     Some \<lparr> c_top = 0, c_bottom = 0, c_left = 1, c_right = 1 \<rparr> \<and>
   computeCropBoundsFromMask (rect_matte 60 50) 60 50 =
     Some \<lparr> c_top = 10, c_bottom = 40, c_left = 10, c_right = 50 \<rparr>"
proof -
  have q: "qualifying [Some 0, Some 1, Some 0, Some 0] 2 2 = {(1, 0)}"
    by (auto simp: qualifying_def rdF_def jgt_def less_Suc_eq numeral_2_eq_2 nth_Cons'
             split: if_splits)
  show ?thesis
    using computeCropBoundsFromMask_tight [of "[Some 0, Some 1, Some 0, Some 0]" 2 2]
      computeCropBoundsFromMask_tight [of "[]" 60 50]
    by (simp add: q)
qed

section \<open>The gradient map clamps its neighbours\<close>

lemma pixel_index_less:
  assumes "x < width" and "y < height"
  shows "y * width + x < width * (height::nat)"
proof -
  have "y * width + x < y * width + width" using assms by simp
  also have "\<dots> = (y + 1) * width" by simp
  also have "\<dots> \<le> height * width" using assms by (intro mult_le_mono1) simp
  finally show ?thesis by (simp add: mult.commute)
qed

lemma fold_update_length:
  "length (fold (\<lambda>p g. g[k p := f p]) ps g) = length g"
  by (induction ps arbitrary: g) simp_all

lemma fold_update_other:
  "i \<notin> k ` set ps \<Longrightarrow> fold (\<lambda>p g. g[k p := f p]) ps g ! i = g ! i"
  by (induction ps arbitrary: g) (simp_all add: nth_list_update)

lemma fold_update_nth:
  "distinct (map k ps) \<Longrightarrow> p \<in> set ps \<Longrightarrow> k p < length g \<Longrightarrow>
   fold (\<lambda>p g. g[k p := f p]) ps g ! k p = f p"
proof (induction ps arbitrary: g)
  case Nil
  then show ?case by simp
next
  case (Cons q ps)
  show ?case
  proof (cases "p = q")
    case True
    then have "k p \<notin> k ` set ps" using Cons.prems(1) by auto
    then show ?thesis using True Cons.prems(3) by (simp add: fold_update_other)
  next
    case False
    then show ?thesis using Cons by simp
  qed
qed

lemma pixel_index_inj:
  "inj_on (\<lambda>(y, x). y * w + x) (set (List.product [0..<h] [0..<w]))"
proof (rule inj_onI)
  fix p q
  assume p: "p \<in> set (List.product [0..<h] [0..<w])"
    and q: "q \<in> set (List.product [0..<h] [0..<w])"
    and e: "(case p of (y, x) \<Rightarrow> y * w + x) = (case q of (y, x) \<Rightarrow> y * w + x)"
  obtain y x where pp: "p = (y, x)" by (cases p)
  obtain y' x' where qq: "q = (y', x')" by (cases q)
  have lt: "x < w" "x' < w" using p q pp qq by auto
  have eq: "y * w + x = y' * w + x'" using e pp qq by simp
  have "(y * w + x) div w = (y' * w + x') div w" "(y * w + x) mod w = (y' * w + x') mod w"
    using eq by simp_all
  then show "p = q" using lt pp qq by simp
qed

lemma fill_length:
  "length (fold (\<lambda>y. fold (\<lambda>x g. g[y * w + x := f y x]) xs) ys g) = length g"
proof -
  have "fold (\<lambda>y. fold (\<lambda>x g. g[y * w + x := f y x]) xs) ys g =
        fold (\<lambda>p g. g[(case p of (y, x) \<Rightarrow> y * w + x) := (case p of (y, x) \<Rightarrow> f y x)])
          (List.product ys xs) g"
    by (simp add: fold_nested case_prod_unfold)
  then show ?thesis by (simp add: fold_update_length)
qed

lemma fill_nth:
  assumes "x < w" and "y < h" and "length g = w * h"
  shows "fold (\<lambda>y. fold (\<lambda>x g. g[y * w + x := f y x]) [0..<w]) [0..<h] g ! (y * w + x) = f y x"
proof -
  let ?k = "\<lambda>p. case p of (y, x) \<Rightarrow> y * w + x"
  let ?f = "\<lambda>p. case p of (y, x) \<Rightarrow> f y x"
  let ?ps = "List.product [0..<h] [0..<w]"
  have e: "fold (\<lambda>y. fold (\<lambda>x g. g[y * w + x := f y x]) [0..<w]) [0..<h] g =
        fold (\<lambda>p g. g[?k p := ?f p]) ?ps g"
    by (simp add: fold_nested case_prod_unfold)
  have d: "distinct (map ?k ?ps)"
    unfolding distinct_map using pixel_index_inj [of w h] by (simp add: distinct_product)
  have m: "(y, x) \<in> set ?ps" using assms by simp
  have l: "?k (y, x) < length g" using assms pixel_index_less [of x w y h] by simp
  show ?thesis
    unfolding e using fold_update_nth [OF d m l, of ?f] by simp
qed






lemma luma_nth:
  assumes "length data = 4 * width * height" and "x < width" and "y < height"
  shows "rdF (map (luma_at data) [0..<width * height]) (y * width + x) =
           Some (luma_px data width x y)"
proof -
  have lt: "y * width + x < width * height" using assms by (simp add: pixel_index_less)
  then have "(y * width + x) * 4 + 2 < length data" using assms(1) by simp
  then show ?thesis
    using lt
    by (simp add: rdF_def luma_at_def luma_px_def rdU_def jadd_def jmul_def jfround_def Let_def)
qed

lemma gradient_at_value:
  assumes len: "length data = 4 * width * height" and x: "x < width" and y: "y < height"
  shows "gradient_at (map (luma_at data) [0..<width * height]) width height y x =
     Some (\<bar>luma_px data width (min (x + 1) (width - 1)) y - luma_px data width (x - 1) y\<bar> +
           \<bar>luma_px data width x (min (y + 1) (height - 1)) - luma_px data width x (y - 1)\<bar>)"
proof -
  let ?L = "map (luma_at data) [0..<width * height]"
  have l: "rdF ?L (if x > 0 then y * width + x - 1 else y * width + x) =
             Some (luma_px data width (x - 1) y)"
  proof (cases "x > 0")
    case True
    then have "y * width + x - 1 = y * width + (x - 1)" by simp
    then show ?thesis using True luma_nth [OF len, of "x - 1" y] x y by simp
  next
    case False
    then show ?thesis using luma_nth [OF len x y] by simp
  qed
  have r: "rdF ?L (if x < width - 1 then y * width + x + 1 else y * width + x) =
             Some (luma_px data width (min (x + 1) (width - 1)) y)"
  proof (cases "x < width - 1")
    case True
    then have "min (x + 1) (width - 1) = x + 1" and lt: "x + 1 < width" by simp_all
    then show ?thesis using True luma_nth [OF len lt y] by (simp add: add.assoc)
  next
    case False
    then have "min (x + 1) (width - 1) = x" using x by simp
    then show ?thesis using False luma_nth [OF len x y] by simp
  qed
  have u: "rdF ?L (if y > 0 then y * width + x - width else y * width + x) =
             Some (luma_px data width x (y - 1))"
  proof (cases "y > 0")
    case True
    then have "y * width + x - width = (y - 1) * width + x"
      by (cases y) simp_all
    then show ?thesis using True luma_nth [OF len x, of "y - 1"] y by simp
  next
    case False
    then show ?thesis using luma_nth [OF len x y] by simp
  qed
  have d: "rdF ?L (if y < height - 1 then y * width + x + width else y * width + x) =
             Some (luma_px data width x (min (y + 1) (height - 1)))"
  proof (cases "y < height - 1")
    case True
    then have m: "min (y + 1) (height - 1) = y + 1" and lt: "y + 1 < height" by simp_all
    have e: "y * width + x + width = (y + 1) * width + x" by simp
    show ?thesis unfolding e m using True luma_nth [OF len x lt] by simp
  next
    case False
    then have "min (y + 1) (height - 1) = y" using y by simp
    then show ?thesis using False luma_nth [OF len x y] by simp
  qed
  show ?thesis
    unfolding gradient_at_def Let_def l r u d
    by (simp add: jadd_def jsub_def jabs_def)
qed

lemma fround_examples:
  "fround 0 = 0" "fround 255 = 255"
  "fround (43751 / 1000) = 5734531 / 131072" "fround (128751 / 1000) = 4218913 / 32768"
  "fround (11141121 / 131072) = 11141121 / 131072"
  by code_simp+

lemma computeGradientMap_cell:
  assumes "length data = 4 * width * height" and "x < width" and "y < height"
  shows "length (computeGradientMap data width height) = width * height"
    and "rdF (computeGradientMap data width height) (y * width + x) =
     Some (fround
        (\<bar>luma_px data width (min (x + 1) (width - 1)) y - luma_px data width (x - 1) y\<bar> +
         \<bar>luma_px data width x (min (y + 1) (height - 1)) - luma_px data width x (y - 1)\<bar>))"
proof -
  let ?G = "computeGradientMap data width height"
  show len: "length ?G = width * height"
    by (simp add: computeGradientMap_def Let_def fill_length)
  have lt: "y * width + x < width * height" using assms by (simp add: pixel_index_less)
  show "rdF ?G (y * width + x) =
     Some (fround
        (\<bar>luma_px data width (min (x + 1) (width - 1)) y - luma_px data width (x - 1) y\<bar> +
         \<bar>luma_px data width x (min (y + 1) (height - 1)) - luma_px data width x (y - 1)\<bar>))"
    using lt len assms
    by (simp add: rdF_def)
       (simp add: computeGradientMap_def Let_def fill_nth gradient_at_value jfround_def)
qed

lemma computeGradientMap_pair:
  assumes "length data = 8"
  shows "computeGradientMap data 2 1 =
     [Some (fround \<bar>luma_px data 2 1 0 - luma_px data 2 0 0\<bar>),
      Some (fround \<bar>luma_px data 2 1 0 - luma_px data 2 0 0\<bar>)]"
proof -
  let ?G = "computeGradientMap data 2 1"
  have len: "length data = 4 * 2 * 1" using assms by simp
  have l: "length ?G = 2" using computeGradientMap_cell(1) [OF len, of 0 0] by simp
  have c0: "rdF ?G 0 = Some (fround \<bar>luma_px data 2 1 0 - luma_px data 2 0 0\<bar>)"
    using computeGradientMap_cell(2) [OF len, of 0 0] by simp
  have c1: "rdF ?G 1 = Some (fround \<bar>luma_px data 2 1 0 - luma_px data 2 0 0\<bar>)"
    using computeGradientMap_cell(2) [OF len, of 1 0] by simp
  have "0 < length ?G" "1 < length ?G" using l by simp_all
  then have "?G ! 0 = Some (fround \<bar>luma_px data 2 1 0 - luma_px data 2 0 0\<bar>)"
       "?G ! 1 = Some (fround \<bar>luma_px data 2 1 0 - luma_px data 2 0 0\<bar>)"
    using c0 c1 unfolding rdF_def by (simp_all only: if_True)
  then show ?thesis
    using l by (intro nth_equalityI) (auto simp: less_Suc_eq numeral_2_eq_2)
qed

text \<open>
  Two buffers of two pixels side by side. On the first the stored lumas are
  43.750999450683594 and 128.75100708007812 and both gradients are 85.00000762939453, not
  the 85 of exact arithmetic; on the second, black and white, both gradients are 255.
\<close>

lemma computeGradientMap_float_example:
  "computeGradientMap [8, 59, 59, 255, 93, 144, 144, 255] 2 1 =
     [Some (11141121 / 131072), Some (11141121 / 131072)]"
proof -
  have p: "computeGradientMap [8, 59, 59, 255, 93, 144, 144, 255] 2 1 =
     [Some (fround \<bar>luma_px [8, 59, 59, 255, 93, 144, 144, 255] 2 1 0 -
                      luma_px [8, 59, 59, 255, 93, 144, 144, 255] 2 0 0\<bar>),
      Some (fround \<bar>luma_px [8, 59, 59, 255, 93, 144, 144, 255] 2 1 0 -
                      luma_px [8, 59, 59, 255, 93, 144, 144, 255] 2 0 0\<bar>)]"
    by (rule computeGradientMap_pair) simp
  show ?thesis unfolding p by (simp add: luma_px_def fround_examples)
qed





section \<open>The support of the softened mask\<close>

lemma blurRadius_integer:
  "featherAmount this = Some (real_of_int f) \<Longrightarrow>
   blurRadius this = Some (real_of_int (max 1 (f + 1)))"
  by (simp add: blurRadius_def jmax_def jadd_def max_def)

lemma win_fold:
  assumes "\<And>d. d \<in> set ds \<Longrightarrow> valid d \<Longrightarrow> \<exists>v. read d = Some v \<and> 0 \<le> v" and "0 \<le> s0"
  shows "\<exists>s. fold (win_step valid read) ds (Some s0, c0) = (Some s, c0 + length (filter valid ds)) \<and>
           0 \<le> s \<and> (0 < s \<longleftrightarrow> 0 < s0 \<or> (\<exists>d\<in>set ds. valid d \<and> read d \<noteq> Some 0))"
  using assms
proof (induction ds arbitrary: s0 c0)
  case Nil
  then show ?case by simp
next
  case (Cons d ds)
  show ?case
  proof (cases "valid d")
    case False
    then show ?thesis
      using Cons.IH [of s0 c0] Cons.prems by (simp add: win_step_def)
  next
    case True
    then obtain v where v: "read d = Some v" "0 \<le> v" using Cons.prems(1) by auto
    have step: "win_step valid read d (Some s0, c0) = (Some (s0 + v), c0 + 1)"
      using True v by (simp add: win_step_def jadd_def)
    have "0 \<le> s0 + v" using v Cons.prems(2) by simp
    from Cons.IH [OF _ this, of "c0 + 1"] Cons.prems(1)
    obtain s where s: "fold (win_step valid read) ds (Some (s0 + v), c0 + 1) =
          (Some s, c0 + 1 + length (filter valid ds))" "0 \<le> s"
        "0 < s \<longleftrightarrow> 0 < s0 + v \<or> (\<exists>d\<in>set ds. valid d \<and> read d \<noteq> Some 0)"
      by auto
    have "0 < s0 + v \<longleftrightarrow> 0 < s0 \<or> read d \<noteq> Some 0"
      using v Cons.prems(2) by auto
    then show ?thesis
      using s True step by auto
  qed
qed

lemma win_mean:
  assumes fin: "\<And>d. d \<in> set ds \<Longrightarrow> valid d \<Longrightarrow> \<exists>v. read d = Some v \<and> 0 \<le> v"
    and ne: "\<exists>d\<in>set ds. valid d"
  shows "\<exists>m. (case fold (win_step valid read) ds (Some 0, 0) of
                (s, c) \<Rightarrow> jdiv s (Some (real c))) = Some m \<and> 0 \<le> m \<and>
             (m \<noteq> 0 \<longleftrightarrow> (\<exists>d\<in>set ds. valid d \<and> read d \<noteq> Some 0))"
proof -
  from win_fold [of ds valid read 0 0, OF fin]
  obtain s where s: "fold (win_step valid read) ds (Some 0, 0) = (Some s, length (filter valid ds))"
      "0 \<le> s" "0 < s \<longleftrightarrow> (\<exists>d\<in>set ds. valid d \<and> read d \<noteq> Some 0)"
    by auto
  have c: "0 < length (filter valid ds)"
    using ne by (simp add: filter_empty_conv)
  have "s / real (length (filter valid ds)) \<noteq> 0 \<longleftrightarrow> 0 < s" using c s(2) by auto
  then show ?thesis
    using s c by (simp add: jdiv_def)
qed


lemma blur_row_win:
  "blur_row m w r y x =
     (case fold (win_step (\<lambda>dx. 0 \<le> int x + dx \<and> int x + dx < int w)
                   (\<lambda>dx. rdF m (y * w + nat (int x + dx)))) [- r..r] (Some 0, 0) of
        (s, c) \<Rightarrow> jdiv s (Some (real c)))"
proof -
  have "(\<lambda>dx (sum, count). let nx = int x + dx in
            if nx < 0 \<or> nx \<ge> int w then (sum, count)
            else (jadd sum (rdF m (y * w + nat nx)), count + 1)) =
        win_step (\<lambda>dx. 0 \<le> int x + dx \<and> int x + dx < int w)
                   (\<lambda>dx. rdF m (y * w + nat (int x + dx)))"
    by (auto simp: win_step_def fun_eq_iff Let_def)
  then show ?thesis by (simp add: blur_row_def)
qed

lemma blur_col_win:
  "blur_col hz w h r y x =
     (case fold (win_step (\<lambda>dy. 0 \<le> int y + dy \<and> int y + dy < int h)
                   (\<lambda>dy. rdF hz (nat (int y + dy) * w + x))) [- r..r] (Some 0, 0) of
        (s, c) \<Rightarrow> jdiv s (Some (real c)))"
proof -
  have "(\<lambda>dy (sum, count). let ny = int y + dy in
            if ny < 0 \<or> ny \<ge> int h then (sum, count)
            else (jadd sum (rdF hz (nat ny * w + x)), count + 1)) =
        win_step (\<lambda>dy. 0 \<le> int y + dy \<and> int y + dy < int h)
                   (\<lambda>dy. rdF hz (nat (int y + dy) * w + x))"
    by (auto simp: win_step_def fun_eq_iff Let_def)
  then show ?thesis by (simp add: blur_col_def)
qed

lemma window_shift:
  assumes "0 \<le> r" and "k < n"
  shows "(\<exists>d\<in>set [- r..r]. (0 \<le> int k + d \<and> int k + d < int n) \<and> P (nat (int k + d))) \<longleftrightarrow>
         (\<exists>j<n. \<bar>int j - int k\<bar> \<le> r \<and> P j)"
proof
  assume "\<exists>d\<in>set [- r..r]. (0 \<le> int k + d \<and> int k + d < int n) \<and> P (nat (int k + d))"
  then obtain d where d: "- r \<le> d" "d \<le> r" "0 \<le> int k + d" "int k + d < int n"
      "P (nat (int k + d))" by auto
  have "nat (int k + d) < n" "\<bar>int (nat (int k + d)) - int k\<bar> \<le> r"
    using d by auto
  then show "\<exists>j<n. \<bar>int j - int k\<bar> \<le> r \<and> P j" using d(5) by blast
next
  assume "\<exists>j<n. \<bar>int j - int k\<bar> \<le> r \<and> P j"
  then obtain j where j: "j < n" "\<bar>int j - int k\<bar> \<le> r" "P j" by auto
  let ?d = "int j - int k"
  have "?d \<in> set [- r..r]" "0 \<le> int k + ?d" "int k + ?d < int n" "nat (int k + ?d) = j"
    using j by auto
  then show "\<exists>d\<in>set [- r..r]. (0 \<le> int k + d \<and> int k + d < int n) \<and> P (nat (int k + d))"
    using j(3) by (intro bexI [of _ ?d]) simp_all
qed

lemma blur_row_value:
  assumes r: "0 \<le> r" and x: "x < w"
    and reads: "\<And>nx. nx < w \<Longrightarrow> \<exists>v. rdF m (y * w + nx) = Some v \<and> 0 \<le> v"
  shows "\<exists>v. blur_row m w r y x = Some v \<and> 0 \<le> v \<and>
           (v \<noteq> 0 \<longleftrightarrow> (\<exists>nx<w. \<bar>int nx - int x\<bar> \<le> r \<and> rdF m (y * w + nx) \<noteq> Some 0))"
proof -
  let ?valid = "\<lambda>dx. 0 \<le> int x + dx \<and> int x + dx < int w"
  let ?read = "\<lambda>dx. rdF m (y * w + nat (int x + dx))"
  have fin: "\<exists>v. ?read d = Some v \<and> 0 \<le> v" if "?valid d" for d
    using that by (intro reads) auto
  have ne: "\<exists>d\<in>set [- r..r]. ?valid d"
    using r x by (intro bexI [of _ 0]) simp_all
  from win_mean [of "[- r..r]" ?valid ?read, OF fin ne]
  obtain v where v: "blur_row m w r y x = Some v" "0 \<le> v"
      "v \<noteq> 0 \<longleftrightarrow> (\<exists>d\<in>set [- r..r]. ?valid d \<and> ?read d \<noteq> Some 0)"
    unfolding blur_row_win by blast
  show ?thesis
    using v window_shift [OF r x, of "\<lambda>nx. rdF m (y * w + nx) \<noteq> Some 0"] by simp
qed

lemma blur_col_value:
  assumes r: "0 \<le> r" and y: "y < h"
    and reads: "\<And>ny. ny < h \<Longrightarrow> \<exists>v. rdF hz (ny * w + x) = Some v \<and> 0 \<le> v"
  shows "\<exists>v. blur_col hz w h r y x = Some v \<and> 0 \<le> v \<and>
           (v \<noteq> 0 \<longleftrightarrow> (\<exists>ny<h. \<bar>int ny - int y\<bar> \<le> r \<and> rdF hz (ny * w + x) \<noteq> Some 0))"
proof -
  let ?valid = "\<lambda>dy. 0 \<le> int y + dy \<and> int y + dy < int h"
  let ?read = "\<lambda>dy. rdF hz (nat (int y + dy) * w + x)"
  have fin: "\<exists>v. ?read d = Some v \<and> 0 \<le> v" if "?valid d" for d
    using that by (intro reads) auto
  have ne: "\<exists>d\<in>set [- r..r]. ?valid d"
    using r y by (intro bexI [of _ 0]) simp_all
  from win_mean [of "[- r..r]" ?valid ?read, OF fin ne]
  obtain v where v: "blur_col hz w h r y x = Some v" "0 \<le> v"
      "v \<noteq> 0 \<longleftrightarrow> (\<exists>d\<in>set [- r..r]. ?valid d \<and> ?read d \<noteq> Some 0)"
    unfolding blur_col_win by blast
  show ?thesis
    using v window_shift [OF r y, of "\<lambda>ny. rdF hz (ny * w + x) \<noteq> Some 0"] by simp
qed


lemma boxBlur_length: "length (boxBlur m w h r) = length m"
  by (simp add: boxBlur_def Let_def fill_length)

lemma boxBlur_value:
  assumes len: "length msk = w * h" and r: "0 \<le> r" and x: "x < w" and y: "y < h"
  shows "\<exists>v. rdF (boxBlur (map (\<lambda>v. Some (real v)) msk) w h r) (y * w + x) = Some v \<and> 0 \<le> v \<and>
           (v \<noteq> 0 \<longleftrightarrow> box_lit msk w h r y x)"
proof -
  let ?fm = "map (\<lambda>v. Some (real v)) msk"
  let ?H = "fold (\<lambda>y. fold (\<lambda>x horizontal.
                    horizontal[y * w + x := blur_row ?fm w r y x]) [0..<w])
              [0..<h] (replicate (length ?fm) (Some 0))"
  let ?V = "fold (\<lambda>y. fold (\<lambda>x vertical.
                    vertical[y * w + x := blur_col ?H w h r y x]) [0..<w])
              [0..<h] (replicate (length ?fm) (Some 0))"
  have fm: "rdF ?fm (ny * w + nx) = Some (real (msk ! (ny * w + nx)))"
    if "nx < w" "ny < h" for nx ny
    using pixel_index_less [OF that] len by (simp add: rdF_def)
  have H: "rdF ?H (ny * w + nx) = blur_row ?fm w r ny nx" if "nx < w" "ny < h" for nx ny
    using pixel_index_less [OF that] len that
    by (simp add: rdF_def fill_length fill_nth)
  have V: "rdF ?V (y * w + x) = blur_col ?H w h r y x"
    using pixel_index_less [OF x y] len x y
    by (simp add: rdF_def fill_length fill_nth)
  have Hval: "\<exists>v. rdF ?H (ny * w + x) = Some v \<and> 0 \<le> v \<and>
      (v \<noteq> 0 \<longleftrightarrow> (\<exists>nx<w. \<bar>int nx - int x\<bar> \<le> r \<and> msk ! (ny * w + nx) \<noteq> 0))"
    if ny: "ny < h" for ny
  proof -
    have "\<exists>v. blur_row ?fm w r ny x = Some v \<and> 0 \<le> v \<and>
           (v \<noteq> 0 \<longleftrightarrow> (\<exists>nx<w. \<bar>int nx - int x\<bar> \<le> r \<and> rdF ?fm (ny * w + nx) \<noteq> Some 0))"
      by (rule blur_row_value [OF r x]) (simp add: fm ny)
    then obtain v where v: "blur_row ?fm w r ny x = Some v" "0 \<le> v"
        "v \<noteq> 0 \<longleftrightarrow> (\<exists>nx<w. \<bar>int nx - int x\<bar> \<le> r \<and> rdF ?fm (ny * w + nx) \<noteq> Some 0)"
      by blast
    have e: "(\<exists>nx<w. \<bar>int nx - int x\<bar> \<le> r \<and> rdF ?fm (ny * w + nx) \<noteq> Some 0) \<longleftrightarrow>
             (\<exists>nx<w. \<bar>int nx - int x\<bar> \<le> r \<and> msk ! (ny * w + nx) \<noteq> 0)"
      using fm [OF _ ny] by auto
    show ?thesis
      unfolding H [OF x ny] using v e by blast
  qed
  have "\<exists>v. blur_col ?H w h r y x = Some v \<and> 0 \<le> v \<and>
           (v \<noteq> 0 \<longleftrightarrow> (\<exists>ny<h. \<bar>int ny - int y\<bar> \<le> r \<and> rdF ?H (ny * w + x) \<noteq> Some 0))"
    by (rule blur_col_value [OF r y]) (use Hval in blast)
  then obtain v where v: "rdF ?V (y * w + x) = Some v" "0 \<le> v"
      "v \<noteq> 0 \<longleftrightarrow> (\<exists>ny<h. \<bar>int ny - int y\<bar> \<le> r \<and> rdF ?H (ny * w + x) \<noteq> Some 0)"
    unfolding V by blast
  have "(\<exists>ny<h. \<bar>int ny - int y\<bar> \<le> r \<and> rdF ?H (ny * w + x) \<noteq> Some 0) \<longleftrightarrow> box_lit msk w h r y x"
  proof
    assume "\<exists>ny<h. \<bar>int ny - int y\<bar> \<le> r \<and> rdF ?H (ny * w + x) \<noteq> Some 0"
    then obtain ny where ny: "ny < h" "\<bar>int ny - int y\<bar> \<le> r" "rdF ?H (ny * w + x) \<noteq> Some 0"
      by blast
    from Hval [OF ny(1)] ny(3)
    obtain nx where "nx < w" "\<bar>int nx - int x\<bar> \<le> r" "msk ! (ny * w + nx) \<noteq> 0" by auto
    then show "box_lit msk w h r y x" using ny unfolding box_lit_def by blast
  next
    assume "box_lit msk w h r y x"
    then obtain ny nx where n: "ny < h" "nx < w" "\<bar>int ny - int y\<bar> \<le> r" "\<bar>int nx - int x\<bar> \<le> r"
        "msk ! (ny * w + nx) \<noteq> 0" unfolding box_lit_def by blast
    from Hval [OF n(1)] n have "rdF ?H (ny * w + x) \<noteq> Some 0" by auto
    then show "\<exists>ny<h. \<bar>int ny - int y\<bar> \<le> r \<and> rdF ?H (ny * w + x) \<noteq> Some 0"
      using n by blast
  qed
  then show ?thesis
    using v by (simp add: boxBlur_def Let_def)
qed

lemma box_lit_mono: "box_lit msk w h r y x \<Longrightarrow> r \<le> r' \<Longrightarrow> box_lit msk w h r' y x"
  unfolding box_lit_def by (meson order_trans)

lemma smoothstep_nonzero: "smoothstep (Some v) \<noteq> Some 0 \<longleftrightarrow> 0.16 < v"
proof -
  define n where "n = max 0 (min 1 ((v - 0.16) / 0.72))"
  have s: "smoothstep (Some v) = Some (n * n * (3 - 2 * n))"
    by (simp add: smoothstep_def clamp_def jdiv_def jsub_def jmul_def jmax_def jmin_def n_def)
  have n01: "0 \<le> n" "n \<le> 1" by (simp_all add: n_def)
  have "n = 0 \<longleftrightarrow> v \<le> 0.16"
    by (auto simp: n_def max_def min_def divide_le_0_iff)
  moreover have "n * n * (3 - 2 * n) = 0 \<longleftrightarrow> n = 0"
    using n01 by auto
  ultimately show ?thesis unfolding s by auto
qed


text \<open>
  C7 (as amended). For a mask of one byte per pixel and feather amounts \<open>f1 \<le> f2\<close>,
  with blur radii \<open>max 1 (f1 + 1)\<close> and \<open>max 1 (f2 + 1)\<close>: every pixel whose box-blurred
  value is non-zero under the smaller radius has a non-zero box-blurred value under the
  larger one, and the softened matte is non-zero at a pixel exactly when the blurred
  value there is strictly greater than 0.16. The support of the softened matte lies
  inside that of the blur, and it need not grow with the feather amount.
\<close>

theorem softenBinaryMask_support:
  assumes "length msk = width * height" and "x < width" and "y < height" and "f1 \<le> f2"
  shows "(rdF (boxBlur (map (\<lambda>v. Some (real v)) msk) width height (max 1 (f1 + 1))) (y * width + x)
            \<noteq> Some 0 \<longrightarrow>
          rdF (boxBlur (map (\<lambda>v. Some (real v)) msk) width height (max 1 (f2 + 1))) (y * width + x)
            \<noteq> Some 0) \<and>
         (rdF (softenBinaryMask msk width height (max 1 (f1 + 1))) (y * width + x) \<noteq> Some 0 \<longleftrightarrow>
          jgt (rdF (boxBlur (map (\<lambda>v. Some (real v)) msk) width height (max 1 (f1 + 1)))
                 (y * width + x)) (Some 0.16))"
proof -
  let ?B = "\<lambda>r. boxBlur (map (\<lambda>v. Some (real v)) msk) width height r"
  let ?i = "y * width + x"
  have r1: "0 \<le> max 1 (f1 + 1)" and r2: "0 \<le> max 1 (f2 + 1)"
    and le: "max 1 (f1 + 1) \<le> max 1 (f2 + 1)" using assms(4) by simp_all
  from boxBlur_value [OF assms(1) r1 assms(2,3)]
  obtain v1 where v1: "rdF (?B (max 1 (f1 + 1))) ?i = Some v1" "0 \<le> v1"
      "v1 \<noteq> 0 \<longleftrightarrow> box_lit msk width height (max 1 (f1 + 1)) y x" by blast
  from boxBlur_value [OF assms(1) r2 assms(2,3)]
  obtain v2 where v2: "rdF (?B (max 1 (f2 + 1))) ?i = Some v2" "0 \<le> v2"
      "v2 \<noteq> 0 \<longleftrightarrow> box_lit msk width height (max 1 (f2 + 1)) y x" by blast
  have mono: "v1 \<noteq> 0 \<longrightarrow> v2 \<noteq> 0"
    using v1(3) v2(3) box_lit_mono [OF _ le] by blast
  have lt: "?i < length (?B (max 1 (f1 + 1)))"
    using pixel_index_less [OF assms(2,3)] assms(1) by (simp add: boxBlur_length)
  have "rdF (softenBinaryMask msk width height (max 1 (f1 + 1))) ?i =
          smoothstep (rdF (?B (max 1 (f1 + 1))) ?i)"
    using lt by (simp add: softenBinaryMask_def rdF_def Let_def)
  then have soft: "rdF (softenBinaryMask msk width height (max 1 (f1 + 1))) ?i \<noteq> Some 0 \<longleftrightarrow>
      0.16 < v1"
    by (simp add: v1(1) smoothstep_nonzero)
  show ?thesis
    using mono soft by (simp add: v1(1) v2(1) jgt_def)
qed

theorem softenBinaryMask_support_witness:
  "length [0, 0, 0, 1, 0, 0, 0::nat] = 7 * 1 \<and> (3::nat) < 7 \<and> (0::nat) < 1 \<and> (1::int) \<le> 2 \<and>
   rdF (boxBlur (map (\<lambda>v. Some (real v)) [0, 0, 0, 1, 0, 0, 0]) 7 1 (max 1 (1 + 1))) (0 * 7 + 3)
     \<noteq> Some 0 \<and>
   rdF (boxBlur (map (\<lambda>v. Some (real v)) [0, 0, 0, 1, 0, 0, 0]) 7 1 (max 1 (2 + 1))) (0 * 7 + 3)
     \<noteq> Some 0"
proof -
  have b: "rdF (boxBlur (map (\<lambda>v. Some (real v)) [0, 0, 0, 1, 0, 0, 0]) 7 1 (max 1 (1 + 1)))
             (0 * 7 + 3) \<noteq> Some 0"
    by code_simp
  show ?thesis
    using b softenBinaryMask_support [of "[0, 0, 0, 1, 0, 0, 0]" 7 1 3 0 1 2]
    by simp
qed

text \<open>
  The claim as first stated fails on the mask of seven pixels in one row with only the
  middle one set: with feather amount 1 (radius 2) the window mean at the middle pixel
  is 1/5, above 0.16, and the matte is non-zero there; with feather amount 2 (radius 3)
  the mean is 1/7, below 0.16, and the matte is 0.
\<close>

theorem softenBinaryMask_support_counterexample:
  "rdF (softenBinaryMask [0, 0, 0, 1, 0, 0, 0] 7 1 (max 1 (1 + 1))) 3 \<noteq> Some 0 \<and>
   rdF (softenBinaryMask [0, 0, 0, 1, 0, 0, 0] 7 1 (max 1 (2 + 1))) 3 = Some 0 \<and>
   \<not> (\<forall>msk width height f1 f2 i.
        length msk = width * height \<and> set msk \<subseteq> {0, 1} \<and> 0 \<le> f1 \<and> f1 \<le> f2 \<and>
        i < width * height \<and>
        rdF (softenBinaryMask msk width height (max 1 (f1 + 1))) i \<noteq> Some 0 \<longrightarrow>
        rdF (softenBinaryMask msk width height (max 1 (f2 + 1))) i \<noteq> Some 0)"
proof (intro conjI)
  show s1: "rdF (softenBinaryMask [0, 0, 0, 1, 0, 0, 0] 7 1 (max 1 (1 + 1))) 3 \<noteq> Some 0"
    by code_simp
  show s2: "rdF (softenBinaryMask [0, 0, 0, 1, 0, 0, 0] 7 1 (max 1 (2 + 1))) 3 = Some 0"
    by code_simp
  show "\<not> (\<forall>msk width height f1 f2 i.
        length msk = width * height \<and> set msk \<subseteq> {0, 1} \<and> 0 \<le> f1 \<and> f1 \<le> f2 \<and>
        i < width * height \<and>
        rdF (softenBinaryMask msk width height (max 1 (f1 + 1))) i \<noteq> Some 0 \<longrightarrow>
        rdF (softenBinaryMask msk width height (max 1 (f2 + 1))) i \<noteq> Some 0)"
  proof
    assume a: "\<forall>msk width height f1 f2 i.
          length msk = width * height \<and> set msk \<subseteq> {0, 1} \<and> 0 \<le> f1 \<and> f1 \<le> f2 \<and>
          i < width * height \<and>
          rdF (softenBinaryMask msk width height (max 1 (f1 + 1))) i \<noteq> Some 0 \<longrightarrow>
          rdF (softenBinaryMask msk width height (max 1 (f2 + 1))) i \<noteq> Some 0"
    have "rdF (softenBinaryMask [0, 0, 0, 1, 0, 0, 0] 7 1 (max 1 (2 + 1))) 3 \<noteq> Some 0"
      by (rule a [rule_format, of "[0, 0, 0, 1, 0, 0, 0]" 7 1 1 2 3]) (use s1 in simp)
    then show False using s2 by simp
  qed
qed

section \<open>The background model of a tiny image\<close>

lemma collect_samples_one_pixel:
  "collect_samples [255, 255, 255, 255] 1 1 6 1 =
     \<lparr>samples =
        [(Some 255, Some 255, Some 255), (Some 255, Some 255, Some 255),
         (None, None, None), (None, None, None), (None, None, None),
         (None, None, None), (None, None, None), (None, None, None),
         (None, None, None), (None, None, None), (None, None, None),
         (None, None, None)],
      bins =
        [((15, 15, 15), \<lparr>bin_count = 2, bin_r = Some 510, bin_g = Some 510, bin_b = Some 510\<rparr>),
         ((0, 0, 0), \<lparr>bin_count = 10, bin_r = None, bin_g = None, bin_b = None\<rparr>)]\<rparr>"
  by code_simp

lemma border_step_one_pixel:
  "nat (max 6 (min 18 (js_round (real (min 1 1) * 0.025)))) = 6"
  "nat (max 1 (js_round (real (min 1 1) / 320))) = 1"
  by (simp_all add: js_round_def)

text \<open>
  C1. The invariant \<open>expansionTolerance \<ge> tolerance\<close> fails on an image of one opaque
  white pixel. The border band is 6 rows thick whatever the height, so rows 1 to 5 and
  -1 to -5 are sampled outside the buffer: ten samples of \<open>undefined\<close> fill the bin
  0-0-0, which becomes the dominant bin with \<open>NaN\<close> sums; the centre, every distance
  and both tolerances are \<open>NaN\<close>, and \<open>NaN \<ge> NaN\<close> is false.
\<close>

theorem estimateBackgroundModel_one_pixel:
  "estimateBackgroundModel [255, 255, 255, 255] 1 1 =
     Inr \<lparr> m_r = None, m_g = None, m_b = None, tolerance = None, expansionTolerance = None \<rparr> \<and>
   \<not> jge None None"
  unfolding estimateBackgroundModel_def border_step_one_pixel collect_samples_one_pixel Let_def
  by (simp add: dominant_bin_def averageColor_def rgbDistance_def jdiv_def jround_def jsqrt_def
      jsub_def jmul_def jadd_def to_num_def sort_cmp_def percentileSorted_def clamp_def
      jmax_def jmin_def jgt_def jge_def rdF_def)

section \<open>Border seeds are never empty\<close>

lemma consider_pixel_fold:
  "fold (consider_pixel data model gradient) is (s, c) =
     (s @ filter (is_seed data model gradient) is, c @ map (mk_candidate data model gradient) is)"
  by (induction "is" arbitrary: s c)
     (simp_all add: consider_pixel_def is_seed_def mk_candidate_def Let_def)

lemma fold_pairs:
  "fold (\<lambda>x st. f (b x) (f (a x) st)) xs = fold f (concat (map (\<lambda>x. [a x, b x]) xs))"
  by (induction xs) (simp_all add: fun_eq_iff)

lemma fold_pairs_nested:
  "fold (\<lambda>y. fold (\<lambda>x st. f (b y x) (f (a y x) st)) (xs y)) ys =
     fold f (concat (map (\<lambda>y. concat (map (\<lambda>x. [a y x, b y x]) (xs y))) ys))"
  by (induction ys) (simp_all add: fold_pairs fun_eq_iff)

lemma border_scan_visits:
  "border_scan data width height model gradient t =
     (filter (is_seed data model gradient) (visit_order width height t),
      map (mk_candidate data model gradient) (visit_order width height t))"
proof -
  let ?f = "consider_pixel data model gradient"
  have 1: "fold (\<lambda>y. fold (\<lambda>x st. ?f ((height - 1 - y) * width + x) (?f (y * width + x) st))
                  [0..<width]) [0..<t] =
           fold ?f (concat (map (\<lambda>y. concat (map (\<lambda>x. [y * width + x, (height - 1 - y) * width + x])
                  [0..<width])) [0..<t]))"
    by (rule fold_pairs_nested)
  have 2: "fold (\<lambda>x. fold (\<lambda>y st. ?f (y * width + (width - 1 - x)) (?f (y * width + x) st))
                  [t..<height - t]) [0..<t] =
           fold ?f (concat (map (\<lambda>x. concat (map (\<lambda>y. [y * width + x, y * width + (width - 1 - x)])
                  [t..<height - t])) [0..<t]))"
    by (rule fold_pairs_nested)
  show ?thesis
    unfolding border_scan_def Let_def 1 2
    by (simp add: consider_pixel_fold visit_order_def)
qed


lemma thickness_bounds:
  assumes "0 < m"
  shows "1 \<le> nat (max 1 (js_round (real m * 0.01)))"
    and "nat (max 1 (js_round (real m * 0.01))) \<le> m"
proof -
  show "1 \<le> nat (max 1 (js_round (real m * 0.01)))" by simp
  have "real m * 0.01 + 1 / 2 < real m + 1" by simp
  then have "js_round (real m * 0.01) \<le> int m"
    unfolding js_round_def by (simp add: floor_le_iff)
  then show "nat (max 1 (js_round (real m * 0.01))) \<le> m"
    using assms by simp
qed

lemma set_concat_pairs:
  "set (concat (map (\<lambda>y. concat (map (\<lambda>x. [a y x, b y x]) (xs y))) ys)) =
     (\<Union>y\<in>set ys. \<Union>x\<in>set (xs y). {a y x, b y x})"
  by auto

lemma in_visit_order:
  "i \<in> set (visit_order w h t) \<longleftrightarrow>
        (\<exists>y\<in>{0..<t}. \<exists>x\<in>{0..<w}. i = y * w + x \<or> i = (h - 1 - y) * w + x) \<or>
        (\<exists>x\<in>{0..<t}. \<exists>y\<in>{t..<h - t}. i = y * w + x \<or> i = y * w + (w - 1 - x))"
  unfolding visit_order_def set_append set_concat_pairs
  by (simp only: Un_iff UN_iff insert_iff empty_iff set_upt simp_thms)

lemma in_visit_order_plain:
  "i \<in> set (visit_order w h t) \<longleftrightarrow>
        (\<exists>y<t. \<exists>x<w. i = y * w + x \<or> i = (h - 1 - y) * w + x) \<or>
        (\<exists>x<t. \<exists>y. t \<le> y \<and> y < h - t \<and> (i = y * w + x \<or> i = y * w + (w - 1 - x)))"
  unfolding in_visit_order
  apply (simp only: atLeastLessThan_iff Bex_def)
  apply (simp only: le0 simp_thms)
  apply blast
  done

lemma set_visit_order:
  assumes w: "0 < w" and h: "0 < h" and t: "1 \<le> t" "t \<le> w" "t \<le> h"
  shows "set (visit_order w h t) =
     {i. i < w * h \<and> (i div w < t \<or> h - t \<le> i div w \<or> i mod w < t \<or> w - t \<le> i mod w)}"
    (is "?L = ?R")
proof (rule set_eqI)
  fix i
  show "i \<in> ?L \<longleftrightarrow> i \<in> ?R"
  proof
    assume "i \<in> ?L"
    then consider
        (a) y x where "y < t" "x < w" "i = y * w + x"
      | (b) y x where "y < t" "x < w" "i = (h - 1 - y) * w + x"
      | (c) y x where "x < t" "t \<le> y" "y < h - t" "i = y * w + x"
      | (d) y x where "x < t" "t \<le> y" "y < h - t" "i = y * w + (w - 1 - x)"
      unfolding in_visit_order_plain by blast
    then show "i \<in> ?R"
    proof cases
      case a
      then have "y < h" "i div w = y" using t by simp_all
      then show ?thesis using a pixel_index_less [of x w y h] by simp
    next
      case b
      define y' where "y' = h - 1 - y"
      have y': "y' < h" "h - t \<le> y'" "i = y' * w + x" "x < w"
        using b t h by (simp_all add: y'_def)
      then have "i div w = y'" by simp
      then show ?thesis using y' pixel_index_less [of x w y' h] by simp
    next
      case c
      then have "y < h" "x < w" "i mod w = x" using t by simp_all
      then show ?thesis using c pixel_index_less [of x w y h] by simp
    next
      case d
      define x' where "x' = w - 1 - x"
      have x': "x' < w" "w - t \<le> x'" "i = y * w + x'" "y < h"
        using d t w by (simp_all add: x'_def)
      then have "i mod w = x'" by simp
      then show ?thesis using x' pixel_index_less [of x' w y h] by simp
    qed
  next
    assume "i \<in> ?R"
    then have lt: "i < w * h"
      and band: "i div w < t \<or> h - t \<le> i div w \<or> i mod w < t \<or> w - t \<le> i mod w"
      by simp_all
    define y where "y = i div w"
    define x where "x = i mod w"
    have i: "i = y * w + x" and x: "x < w" and y: "y < h"
      using w lt by (simp_all add: x_def y_def less_mult_imp_div_less mult.commute)
    have L: "i \<in> ?L \<longleftrightarrow>
        (\<exists>y<t. \<exists>x<w. i = y * w + x \<or> i = (h - 1 - y) * w + x) \<or>
        (\<exists>x<t. \<exists>y. t \<le> y \<and> y < h - t \<and> (i = y * w + x \<or> i = y * w + (w - 1 - x)))"
      by (rule in_visit_order_plain)
    show "i \<in> ?L"
    proof (cases "y < t")
      case True
      then show ?thesis unfolding L using i x by blast
    next
      case nt: False
      show ?thesis
      proof (cases "h - t \<le> y")
        case True
        let ?y = "h - 1 - y"
        have "?y < t" "h - 1 - ?y = y" using True y t by simp_all
        then have "\<exists>y'<t. i = (h - 1 - y') * w + x" using i by metis
        then show ?thesis unfolding L using x by blast
      next
        case False
        then have yr: "t \<le> y" "y < h - t" using nt by simp_all
        from band False nt have "x < t \<or> w - t \<le> x" by (simp add: x_def y_def)
        then show ?thesis
        proof
          assume "x < t"
          then show ?thesis unfolding L using i yr by blast
        next
          assume a: "w - t \<le> x"
          let ?x = "w - 1 - x"
          have "?x < t" "w - 1 - ?x = x" using a x t by simp_all
          then have "\<exists>x'<t. i = y * w + (w - 1 - x')" using i by metis
          then show ?thesis unfolding L using yr by blast
        qed
      qed
    qed
  qed
qed


lemma insort_cmp_length: "length (insort_cmp c x ys) = Suc (length ys)"
  by (induction ys) simp_all

lemma sort_cmp_length: "length (sort_cmp c xs) = length xs"
  by (induction xs) (simp_all add: sort_cmp_def insort_cmp_length)

lemma insort_cmp_key:
  assumes "\<And>y. y \<in> set ys \<Longrightarrow> c x y = Some (k x - k y)"
  shows "insort_cmp c x ys = insort_key k x ys"
  using assms by (induction ys) (auto simp: jgt_def)

lemma sort_cmp_key:
  assumes "\<And>x y. x \<in> set xs \<Longrightarrow> y \<in> set xs \<Longrightarrow> c x y = Some (k x - k y)"
  shows "sort_cmp c xs = sort_key k xs"
  using assms
proof (induction xs)
  case Nil
  show ?case by (simp add: sort_cmp_def)
next
  case (Cons x xs)
  have ih: "sort_cmp c xs = sort_key k xs" using Cons by simp
  have "insort_cmp c x (sort_key k xs) = insort_key k x (sort_key k xs)"
    by (rule insort_cmp_key) (simp add: Cons.prems)
  then show ?case using ih by (simp add: sort_cmp_def)
qed

lemma take_min_length: "length ys = m \<Longrightarrow> take (min n m) ys = take n ys"
  by (simp add: min_def)

lemma take_nonempty: "0 < n \<Longrightarrow> xs \<noteq> [] \<Longrightarrow> take n xs \<noteq> []"
  by (cases n; cases xs) simp_all

lemma candidate_cmp_finite:
  assumes "cand_dist a \<noteq> None" "cand_grad a \<noteq> None" "cand_dist b \<noteq> None" "cand_grad b \<noteq> None"
  shows "candidate_cmp a b = Some (candidate_score a - candidate_score b)"
  using assms by (auto simp: candidate_cmp_def candidate_score_def jsub_def jadd_def jmul_def)

lemma border_band_visit:
  assumes "0 < width" and "0 < height"
  shows "set (visit_order width height (nat (max 1 (js_round (real (min width height) * 0.01))))) =
         border_band width height"
proof -
  let ?t = "nat (max 1 (js_round (real (min width height) * 0.01)))"
  have m: "0 < min width height" using assms by simp
  have t: "1 \<le> ?t" "?t \<le> width" "?t \<le> height"
    using thickness_bounds [OF m] by simp_all
  show ?thesis
    unfolding border_band_def Let_def by (rule set_visit_order [OF assms t])
qed

text \<open>
  C8. For \<open>width, height \<ge> 1\<close>, any buffer and any background model:
  \<open>collectBorderSeeds\<close> returns a non-empty list; the candidates are the pixels of the
  border band; when some pixel of the band has distance to the model at most the
  tolerance and gradient at most 85, the seeds are exactly the pixels of the band with
  that property; when none has, the seeds are the first
  \<open>max 40 (round (min width height * 0.3))\<close> candidates (all of them if there are
  fewer) of the candidate list sorted by the comparator on \<open>dist + grad * 0.2\<close>, and
  when every candidate has a finite distance and gradient that sorted list is the stable
  sort by this score, smallest first.
\<close>

theorem collectBorderSeeds_starting_set:
  assumes "0 < width" and "0 < height"
  shows "collectBorderSeeds data width height model gradient \<noteq> [] \<and>
     cand_idx ` set (border_candidates data width height model gradient) =
       border_band width height \<and>
     ((\<exists>i\<in>border_band width height. is_seed data model gradient i) \<longrightarrow>
        set (collectBorderSeeds data width height model gradient) =
          {i \<in> border_band width height. is_seed data model gradient i}) \<and>
     ((\<forall>i\<in>border_band width height. \<not> is_seed data model gradient i) \<longrightarrow>
        collectBorderSeeds data width height model gradient =
          map cand_idx
            (take (nat (max 40 (js_round (real (min width height) * 0.3))))
               (sort_cmp candidate_cmp (border_candidates data width height model gradient))) \<and>
        ((\<forall>c\<in>set (border_candidates data width height model gradient).
             cand_dist c \<noteq> None \<and> cand_grad c \<noteq> None) \<longrightarrow>
         sort_cmp candidate_cmp (border_candidates data width height model gradient) =
           sort_key candidate_score (border_candidates data width height model gradient)))"
proof -
  let ?t = "nat (max 1 (js_round (real (min width height) * 0.01)))"
  let ?V = "visit_order width height ?t"
  let ?C = "border_candidates data width height model gradient"
  let ?N = "nat (max 40 (js_round (real (min width height) * 0.3)))"
  let ?S = "collectBorderSeeds data width height model gradient"
  have scan: "border_scan data width height model gradient ?t =
      (filter (is_seed data model gradient) ?V, map (mk_candidate data model gradient) ?V)"
    by (rule border_scan_visits)
  have C: "?C = map (mk_candidate data model gradient) ?V"
    unfolding border_candidates_def scan by simp
  have V: "set ?V = border_band width height"
    by (rule border_band_visit [OF assms])
  have S: "?S = (if filter (is_seed data model gradient) ?V \<noteq> []
                 then filter (is_seed data model gradient) ?V
                 else map cand_idx (take ?N (sort_cmp candidate_cmp ?C)))"
    unfolding collectBorderSeeds_def Let_def scan C
    by (simp add: sort_cmp_length take_min_length)
  have idx: "cand_idx ` set ?C = border_band width height"
    unfolding C using V by (simp add: image_image mk_candidate_def)
  have "0 < max 1 (js_round (real (min width height) * 0.01))" by simp
  then have "0 \<in> border_band width height"
    using assms unfolding border_band_def Let_def by simp
  then have Vne: "?V \<noteq> []" using V by auto
  have Nne: "0 < ?N" by simp
  have ne: "?S \<noteq> []"
  proof (cases "filter (is_seed data model gradient) ?V \<noteq> []")
    case True
    then show ?thesis by (simp add: S)
  next
    case False
    have "length (sort_cmp candidate_cmp ?C) = length ?V"
      by (simp add: sort_cmp_length C)
    then have "sort_cmp candidate_cmp ?C \<noteq> []" using Vne by (metis length_0_conv)
    then have "take ?N (sort_cmp candidate_cmp ?C) \<noteq> []"
      by (rule take_nonempty [OF Nne])
    then show ?thesis using False unfolding S by simp
  qed
  have seeds: "set ?S = {i \<in> border_band width height. is_seed data model gradient i}"
    if "\<exists>i\<in>border_band width height. is_seed data model gradient i"
  proof -
    have "filter (is_seed data model gradient) ?V \<noteq> []"
      using that V by (auto simp: filter_empty_conv)
    then show ?thesis using V by (auto simp: S)
  qed
  have fallback: "?S = map cand_idx (take ?N (sort_cmp candidate_cmp ?C))"
    if "\<forall>i\<in>border_band width height. \<not> is_seed data model gradient i"
  proof -
    have "filter (is_seed data model gradient) ?V = []"
      using that V by (auto simp: filter_empty_conv)
    then show ?thesis by (simp add: S)
  qed
  have sorted: "sort_cmp candidate_cmp ?C = sort_key candidate_score ?C"
    if "\<forall>c\<in>set ?C. cand_dist c \<noteq> None \<and> cand_grad c \<noteq> None"
    by (rule sort_cmp_key) (use that in \<open>simp add: candidate_cmp_finite\<close>)
  show ?thesis
    using ne idx seeds fallback sorted by blast
qed


lemma border_band_one_pixel: "border_band 1 1 = {0}"
  by (auto simp: border_band_def js_round_def Let_def)

lemma border_candidates_one_pixel:
  "border_candidates [0, 0, 0, 255] 1 1 model [Some 0] =
     [mk_candidate [0, 0, 0, 255] model [Some 0] 0, mk_candidate [0, 0, 0, 255] model [Some 0] 0]"
proof -
  have t: "nat (max 1 (js_round (real (min 1 1) * 0.01))) = 1"
    by (simp add: js_round_def)
  show ?thesis
    unfolding border_candidates_def t border_scan_visits
    by (simp add: visit_order_def)
qed

theorem collectBorderSeeds_starting_set_witness:
  "(0::nat) < 1 \<and>
   border_band 1 1 = {0} \<and>
   is_seed [0, 0, 0, 255]
     \<lparr>m_r = Some 0, m_g = Some 0, m_b = Some 0, tolerance = Some 30, expansionTolerance = Some 42\<rparr>
     [Some 0] 0 \<and>
   set (collectBorderSeeds [0, 0, 0, 255] 1 1
     \<lparr>m_r = Some 0, m_g = Some 0, m_b = Some 0, tolerance = Some 30, expansionTolerance = Some 42\<rparr>
     [Some 0]) = {0} \<and>
   \<not> is_seed [0, 0, 0, 255]
     \<lparr>m_r = Some 255, m_g = Some 255, m_b = Some 255, tolerance = Some 30,
        expansionTolerance = Some 42\<rparr> [Some 0] 0 \<and>
   collectBorderSeeds [0, 0, 0, 255] 1 1
     \<lparr>m_r = Some 255, m_g = Some 255, m_b = Some 255, tolerance = Some 30,
        expansionTolerance = Some 42\<rparr> [Some 0] = [0, 0]"
proof -
  let ?d = "[0, 0, 0, 255::nat]"
  let ?A = "\<lparr>m_r = Some 0, m_g = Some 0, m_b = Some 0, tolerance = Some 30,
              expansionTolerance = Some 42\<rparr>"
  let ?B = "\<lparr>m_r = Some 255, m_g = Some 255, m_b = Some 255, tolerance = Some 30,
              expansionTolerance = Some 42\<rparr>"
  have a: "is_seed ?d ?A [Some 0] 0"
    by (simp add: is_seed_def rgbDistanceAt_def rgbDistance_def rdU_def rdF_def jsub_def jmul_def
        jadd_def jsqrt_def Let_def)
  have "(30::real) < sqrt 195075" by (rule real_less_rsqrt) simp
  then have b: "\<not> is_seed ?d ?B [Some 0] 0"
    by (simp add: is_seed_def rgbDistanceAt_def rgbDistance_def rdU_def rdF_def jsub_def jmul_def
        jadd_def jsqrt_def Let_def)
  have fin: "\<forall>c\<in>set (border_candidates ?d 1 1 ?B [Some 0]). cand_dist c \<noteq> None \<and> cand_grad c \<noteq> None"
    unfolding border_candidates_one_pixel
    by (simp add: mk_candidate_def rgbDistanceAt_def rgbDistance_def rdU_def rdF_def jsub_def jmul_def
        jadd_def jsqrt_def Let_def)
  have n: "nat (max 40 (js_round (real (min 1 1) * 0.3))) = 40"
    by (simp add: js_round_def)
  have pos: "(0::nat) < 1" by simp
  note TA = collectBorderSeeds_starting_set [of 1 1 ?d ?A "[Some 0]", OF pos pos]
  note TB = collectBorderSeeds_starting_set [of 1 1 ?d ?B "[Some 0]", OF pos pos]
  have exA: "\<exists>i\<in>border_band 1 1. is_seed ?d ?A [Some 0] i"
    using a unfolding border_band_one_pixel by simp
  have "set (collectBorderSeeds ?d 1 1 ?A [Some 0]) =
          {i \<in> border_band 1 1. is_seed ?d ?A [Some 0] i}"
    using TA [THEN conjunct2, THEN conjunct2, THEN conjunct1] exA by (rule mp)
  also have "\<dots> = {0}"
    using a unfolding border_band_one_pixel by auto
  finally have A: "set (collectBorderSeeds ?d 1 1 ?A [Some 0]) = {0}" .
  have noB: "\<forall>i\<in>border_band 1 1. \<not> is_seed ?d ?B [Some 0] i"
    using b unfolding border_band_one_pixel by simp
  note FB = TB [THEN conjunct2, THEN conjunct2, THEN conjunct2, THEN mp, OF noB]
  have srt: "sort_cmp candidate_cmp (border_candidates ?d 1 1 ?B [Some 0]) =
             sort_key candidate_score (border_candidates ?d 1 1 ?B [Some 0])"
    using FB [THEN conjunct2] fin by (rule mp)
  have B: "collectBorderSeeds ?d 1 1 ?B [Some 0] = [0, 0]"
    unfolding FB [THEN conjunct1] srt n
    unfolding border_candidates_one_pixel
    by (simp add: mk_candidate_def)
  show ?thesis
    using a b A B border_band_one_pixel by simp
qed

section \<open>Breadth-first search visits each pixel once\<close>

lemma bfs_inv_room:
  assumes inv: "bfs_inv N m0 v s" and n: "n < N" "n \<notin> queued s"
  shows "tail s < N"
proof -
  have d: "distinct (take (tail s) (queue s))" and le: "tail s \<le> N"
    and len: "length (queue s) = N" and sub: "queued s \<subseteq> {..<N} - {n}"
    using inv n by (auto simp: bfs_inv_def)
  have "card (queued s) = tail s"
    unfolding queued_def using d le len by (simp add: distinct_card)
  moreover have "card (queued s) \<le> card ({..<N} - {n})"
    by (rule card_mono) (use sub in auto)
  moreover have "card ({..<N} - {n}) = N - 1" using n by simp
  ultimately show ?thesis using n by simp
qed

lemma bfs_push_new:
  assumes inv: "bfs_inv N m0 v s" and n: "n < N"
    and fresh: "\<not> truthyU (visited s) n" and ok: "ok"
  shows "bfs_inv N m0 v (bfs_push ok v n s)"
    and "queued (bfs_push ok v n s) = insert n (queued s)"
    and "n \<notin> queued s" and "m0 ! n = 0"
    and "take (tail s) (queue (bfs_push ok v n s)) = take (tail s) (queue s)"
    and "tail (bfs_push ok v n s) = tail s + 1"
proof -
  let ?s = "bfs_push ok v n s"
  have lens: "length (visited s) = N" "length (queue s) = N" "length m0 = N"
    and v: "v \<noteq> 0" and ht: "head s \<le> tail s"
    and d: "distinct (take (tail s) (queue s))"
    and q: "\<forall>i\<in>queued s. i < N \<and> m0 ! i = 0"
    and vis: "\<forall>i<N. visited s ! i = (if i \<in> queued s then v else m0 ! i)"
    using inv by (simp_all add: bfs_inv_def)
  have z: "visited s ! n = 0" using fresh n lens by (simp add: truthyU_def)
  show nq: "n \<notin> queued s" using z vis n v by auto
  show m0: "m0 ! n = 0" using z vis n nq by auto
  have room: "tail s < N" by (rule bfs_inv_room [OF inv n nq])
  have s': "?s = s\<lparr> visited := (visited s)[n := v], queue := (queue s)[tail s := n],
                     tail := tail s + 1 \<rparr>"
    using fresh ok by (simp add: bfs_push_def)
  have tk: "take (tail s + 1) ((queue s)[tail s := n]) = take (tail s) (queue s) @ [n]"
    using room lens by (simp add: take_Suc_conv_app_nth)
  show pre: "take (tail s) (queue ?s) = take (tail s) (queue s)"
    by (simp add: s')
  show tl: "tail ?s = tail s + 1" by (simp add: s')
  show qs: "queued ?s = insert n (queued s)"
    unfolding queued_def s' using tk by simp
  show "bfs_inv N m0 v ?s"
    unfolding bfs_inv_def qs
    using lens v ht room d q vis n nq m0 tk
    by (auto simp: s' queued_def nth_list_update)
qed

lemma bfs_push_old:
  assumes "truthyU (visited s) n \<or> \<not> ok"
  shows "bfs_push ok v n s = s"
  using assms by (simp add: bfs_push_def)


lemma nbr4_less:
  assumes "p < w * h" and "nbr4 w h p n"
  shows "n < w * h"
proof -
  have w: "0 < w" using assms(1) by (cases w) simp_all
  define x where "x = p mod w"
  define y where "y = p div w"
  have p: "p = y * w + x" and x: "x < w" and y: "y < h"
    using w assms(1) by (simp_all add: x_def y_def less_mult_imp_div_less mult.commute)
  from assms(2) consider (l) "x > 0" "n = p - 1" | (r) "x < w - 1" "n = p + 1"
    | (u) "y > 0" "n = p - w" | (d) "y < h - 1" "n = p + w"
    unfolding nbr4_def x_def y_def by (elim disjE conjE) simp_all
  then show ?thesis
  proof cases
    case l then show ?thesis using assms(1) by simp
  next
    case r
    then have "n = y * w + (x + 1)" "x + 1 < w" using p by simp_all
    then show ?thesis using pixel_index_less [of "x + 1" w y h] y by simp
  next
    case u then show ?thesis using assms(1) by simp
  next
    case d
    then have "n = (y + 1) * w + x" "y + 1 < h" using p by simp_all
    then show ?thesis using pixel_index_less [of x w "y + 1" h] x by simp
  qed
qed

lemma bfs_ext_refl: "bfs_inv N m0 v s \<Longrightarrow> bfs_ext N m0 v E p s s"
  by (simp add: bfs_ext_def)

lemma bfs_ext_trans:
  assumes "bfs_ext N m0 v E p s s'" and "bfs_ext N m0 v E p s' s''"
  shows "bfs_ext N m0 v E p s s''"
proof -
  have "take (tail s) (queue s'') = take (tail s) (take (tail s') (queue s''))"
    using assms(1) by (simp add: bfs_ext_def min_def)
  also have "\<dots> = take (tail s) (take (tail s') (queue s'))"
    using assms(2) by (simp add: bfs_ext_def)
  also have "\<dots> = take (tail s) (queue s)"
    using assms(1) by (simp add: bfs_ext_def min_def)
  finally have "take (tail s) (queue s'') = take (tail s) (queue s)" .
  then show ?thesis
    using assms unfolding bfs_ext_def by auto
qed

lemma bfs_ext_push:
  assumes inv: "bfs_inv N m0 v s" and n: "n < N" and nb: "nbr4 w h p n"
  shows "bfs_ext N m0 v (bfs_edges w h ok m0) p s (bfs_push (ok p n) v n s)"
    and "(p, n) \<in> bfs_edges w h ok m0 \<Longrightarrow> n \<in> queued (bfs_push (ok p n) v n s)"
proof -
  let ?s = "bfs_push (ok p n) v n s"
  have vis: "\<forall>i<N. visited s ! i = (if i \<in> queued s then v else m0 ! i)"
    and len: "length (visited s) = N" and v: "v \<noteq> 0"
    using inv by (simp_all add: bfs_inv_def)
  show "bfs_ext N m0 v (bfs_edges w h ok m0) p s ?s"
  proof (cases "truthyU (visited s) n \<or> \<not> ok p n")
    case True
    then show ?thesis using inv by (simp add: bfs_push_old bfs_ext_refl)
  next
    case False
    then have f: "\<not> truthyU (visited s) n" and ok: "ok p n" by simp_all
    note P = bfs_push_new [OF inv n f ok]
    have "(p, n) \<in> bfs_edges w h ok m0"
      using nb ok P(4) by (simp add: bfs_edges_def)
    then show ?thesis
      unfolding bfs_ext_def using P
      by (auto simp: bfs_push_def)
  qed
  show "n \<in> queued ?s" if e: "(p, n) \<in> bfs_edges w h ok m0"
  proof (cases "truthyU (visited s) n")
    case True
    then have "visited s ! n \<noteq> 0" by (simp add: truthyU_def)
    moreover have "m0 ! n = 0" using e by (simp add: bfs_edges_def)
    ultimately have "n \<in> queued s" using vis n by (auto split: if_splits)
    then show ?thesis using True by (simp add: bfs_push_old)
  next
    case False
    have ok: "ok p n" using e by (simp add: bfs_edges_def)
    show ?thesis using bfs_push_new(2) [OF inv n False ok] by simp
  qed
qed


lemma bfs_scan_ext:
  assumes inv: "bfs_inv (w * h) m0 v s" and idx: "idx < w * h"
  shows "bfs_ext (w * h) m0 v (bfs_edges w h ok m0) idx s (bfs_scan ok v w h idx s)"
    and "(idx, n) \<in> bfs_edges w h ok m0 \<Longrightarrow> n \<in> queued (bfs_scan ok v w h idx s)"
proof -
  let ?E = "bfs_edges w h ok m0"
  let ?N = "w * h"
  define s1 where "s1 = (if idx mod w > 0 then bfs_push (ok idx (idx - 1)) v (idx - 1) s else s)"
  define s2 where "s2 = (if idx mod w < w - 1 then bfs_push (ok idx (idx + 1)) v (idx + 1) s1 else s1)"
  define s3 where "s3 = (if idx div w > 0 then bfs_push (ok idx (idx - w)) v (idx - w) s2 else s2)"
  define s4 where "s4 = (if idx div w < h - 1 then bfs_push (ok idx (idx + w)) v (idx + w) s3 else s3)"
  have scan: "bfs_scan ok v w h idx s = s4"
    by (simp add: bfs_scan_def Let_def s1_def s2_def s3_def s4_def)
  have step: "bfs_ext ?N m0 v ?E idx t (if g then bfs_push (ok idx m) v m t else t) \<and>
       (g \<and> (idx, m) \<in> ?E \<longrightarrow> m \<in> queued (if g then bfs_push (ok idx m) v m t else t))"
    if "bfs_inv ?N m0 v t" "g \<Longrightarrow> nbr4 w h idx m" for t g m
  proof (cases g)
    case True
    then have nb: "nbr4 w h idx m" using that by simp
    then have "m < ?N" using nbr4_less [OF idx] by simp
    then show ?thesis
      using True bfs_ext_push [OF that(1) _ nb, of ok] by simp
  next
    case False
    then show ?thesis using that(1) by (simp add: bfs_ext_refl)
  qed
  have e1: "bfs_ext ?N m0 v ?E idx s s1"
    and q1: "idx mod w > 0 \<and> (idx, idx - 1) \<in> ?E \<longrightarrow> idx - 1 \<in> queued s1"
    unfolding s1_def using step [OF inv, of "idx mod w > 0" "idx - 1"]
    by (simp_all add: nbr4_def)
  have i1: "bfs_inv ?N m0 v s1" using e1 by (simp add: bfs_ext_def)
  have e2: "bfs_ext ?N m0 v ?E idx s1 s2"
    and q2: "idx mod w < w - 1 \<and> (idx, idx + 1) \<in> ?E \<longrightarrow> idx + 1 \<in> queued s2"
    unfolding s2_def using step [OF i1, of "idx mod w < w - 1" "idx + 1"]
    by (simp_all add: nbr4_def)
  have i2: "bfs_inv ?N m0 v s2" using e2 by (simp add: bfs_ext_def)
  have e3: "bfs_ext ?N m0 v ?E idx s2 s3"
    and q3: "idx div w > 0 \<and> (idx, idx - w) \<in> ?E \<longrightarrow> idx - w \<in> queued s3"
    unfolding s3_def using step [OF i2, of "idx div w > 0" "idx - w"]
    by (simp_all add: nbr4_def)
  have i3: "bfs_inv ?N m0 v s3" using e3 by (simp add: bfs_ext_def)
  have e4: "bfs_ext ?N m0 v ?E idx s3 s4"
    and q4: "idx div w < h - 1 \<and> (idx, idx + w) \<in> ?E \<longrightarrow> idx + w \<in> queued s4"
    unfolding s4_def using step [OF i3, of "idx div w < h - 1" "idx + w"]
    by (simp_all add: nbr4_def)
  have mono: "queued s1 \<subseteq> queued s4" "queued s2 \<subseteq> queued s4" "queued s3 \<subseteq> queued s4"
    using e2 e3 e4 by (auto simp: bfs_ext_def)
  show "bfs_ext ?N m0 v ?E idx s (bfs_scan ok v w h idx s)"
    unfolding scan
    by (rule bfs_ext_trans [OF bfs_ext_trans [OF bfs_ext_trans [OF e1 e2] e3] e4])
  show "n \<in> queued (bfs_scan ok v w h idx s)" if e: "(idx, n) \<in> ?E"
  proof -
    have "nbr4 w h idx n" using e by (simp add: bfs_edges_def)
    then consider "idx mod w > 0" "n = idx - 1" | "idx mod w < w - 1" "n = idx + 1"
      | "idx div w > 0" "n = idx - w" | "idx div w < h - 1" "n = idx + w"
      unfolding nbr4_def by (elim disjE conjE) simp_all
    then show ?thesis
      unfolding scan using e q1 q2 q3 q4 mono by cases auto
  qed
qed


lemma bfs_step_inv:
  assumes li: "bfs_loop_inv (w * h) m0 v (bfs_edges w h ok m0) S0 s"
    and run: "head s < tail s"
    and pre: "\<And>i t. visited (pre i t) = visited t \<and> queue (pre i t) = queue t \<and>
                      head (pre i t) = head t \<and> tail (pre i t) = tail t"
  shows "bfs_loop_inv (w * h) m0 v (bfs_edges w h ok m0) S0 (bfs_step pre ok v w h s)"
    and "head (bfs_step pre ok v w h s) = head s + 1"
    and "tail (bfs_step pre ok v w h s) \<le> w * h"
proof -
  let ?E = "bfs_edges w h ok m0"
  let ?N = "w * h"
  have inv: "bfs_inv ?N m0 v s" and S0: "S0 \<subseteq> queued s" and snd: "queued s \<subseteq> ?E\<^sup>* `` S0"
    and cl: "\<forall>k<head s. \<forall>n. (queue s ! k, n) \<in> ?E \<longrightarrow> n \<in> queued s"
    using li by (simp_all add: bfs_loop_inv_def)
  have len: "length (queue s) = ?N" and tl: "tail s \<le> ?N"
    and q: "\<forall>i\<in>queued s. i < ?N \<and> m0 ! i = 0"
    using inv by (simp_all add: bfs_inv_def)
  define idx where "idx = queue s ! head s"
  have rd: "rdN (queue s) (head s) = Some idx"
    using run tl len by (simp add: rdN_def idx_def)
  have iq: "idx \<in> queued s"
    unfolding queued_def idx_def using run tl len by (auto simp: in_set_conv_nth intro!: exI [of _ "head s"])
  then have ilt: "idx < ?N" using q by simp
  define s1 where "s1 = pre idx (s\<lparr> head := head s + 1 \<rparr>)"
  have f1: "visited s1 = visited s" "queue s1 = queue s" "head s1 = head s + 1" "tail s1 = tail s"
    using pre [of idx "s\<lparr> head := head s + 1 \<rparr>"] by (simp_all add: s1_def)
  have q1: "queued s1 = queued s" by (simp add: queued_def f1)
  have inv1: "bfs_inv ?N m0 v s1"
    using inv run unfolding bfs_inv_def q1 by (simp add: f1)
  define s2 where "s2 = bfs_scan ok v w h idx s1"
  have st: "bfs_step pre ok v w h s = s2"
    by (simp add: bfs_step_def rd s2_def s1_def)
  have ext: "bfs_ext ?N m0 v ?E idx s1 s2"
    unfolding s2_def by (rule bfs_scan_ext(1) [OF inv1 ilt])
  have nbrs: "\<And>n. (idx, n) \<in> ?E \<Longrightarrow> n \<in> queued s2"
    unfolding s2_def by (rule bfs_scan_ext(2) [OF inv1 ilt])
  have inv2: "bfs_inv ?N m0 v s2" and h2: "head s2 = head s + 1"
    and pref: "take (tail s) (queue s2) = take (tail s) (queue s)"
    and mono: "queued s \<subseteq> queued s2"
    and new: "\<forall>n\<in>queued s2. n \<in> queued s \<or> (idx, n) \<in> ?E"
    using ext unfolding bfs_ext_def by (simp_all add: f1 q1)
  have nth: "queue s2 ! k = queue s ! k" if "k < tail s" for k
  proof -
    have "queue s2 ! k = take (tail s) (queue s2) ! k" using that by simp
    also have "\<dots> = queue s ! k" unfolding pref using that by simp
    finally show ?thesis .
  qed
  have ireach: "idx \<in> ?E\<^sup>* `` S0" using iq snd by auto
  have snd2: "queued s2 \<subseteq> ?E\<^sup>* `` S0"
  proof
    fix n assume "n \<in> queued s2"
    then consider "n \<in> queued s" | "(idx, n) \<in> ?E" using new by auto
    then show "n \<in> ?E\<^sup>* `` S0"
    proof cases
      case 1 then show ?thesis using snd by auto
    next
      case 2
      then show ?thesis using ireach by (auto intro: rtrancl_into_rtrancl)
    qed
  qed
  have cl2: "\<forall>k<head s2. \<forall>n. (queue s2 ! k, n) \<in> ?E \<longrightarrow> n \<in> queued s2"
  proof (intro allI impI)
    fix k n assume k: "k < head s2" and e: "(queue s2 ! k, n) \<in> ?E"
    have kt: "k < tail s" using k h2 run by simp
    show "n \<in> queued s2"
    proof (cases "k < head s")
      case True
      then show ?thesis using cl e nth [OF kt] mono by auto
    next
      case False
      then have "k = head s" using k h2 by simp
      then have "queue s2 ! k = idx" using nth [OF kt] by (simp add: idx_def)
      then show ?thesis using e nbrs by simp
    qed
  qed
  show "bfs_loop_inv ?N m0 v ?E S0 (bfs_step pre ok v w h s)"
    unfolding st bfs_loop_inv_def using inv2 S0 mono snd2 cl2 by auto
  show "head (bfs_step pre ok v w h s) = head s + 1" unfolding st by (rule h2)
  show "tail (bfs_step pre ok v w h s) \<le> ?N" unfolding st using inv2 by (simp add: bfs_inv_def)
qed

lemma bfs_step_prefix:
  assumes inv: "bfs_inv (w * h) m0 v s" and run: "head s < tail s"
    and pre: "\<And>i t. visited (pre i t) = visited t \<and> queue (pre i t) = queue t \<and>
                      head (pre i t) = head t \<and> tail (pre i t) = tail t"
  shows "take (tail s) (queue (bfs_step pre ok v w h s)) = take (tail s) (queue s)"
proof -
  let ?N = "w * h"
  have len: "length (queue s) = ?N" and tl: "tail s \<le> ?N"
    and q: "\<forall>i\<in>queued s. i < ?N \<and> m0 ! i = 0"
    using inv by (simp_all add: bfs_inv_def)
  define idx where "idx = queue s ! head s"
  have rd: "rdN (queue s) (head s) = Some idx"
    using run tl len by (simp add: rdN_def idx_def)
  have "idx \<in> queued s"
    unfolding queued_def idx_def using run tl len
    by (auto simp: in_set_conv_nth intro!: exI [of _ "head s"])
  then have ilt: "idx < ?N" using q by simp
  define s1 where "s1 = pre idx (s\<lparr> head := head s + 1 \<rparr>)"
  have f1: "visited s1 = visited s" "queue s1 = queue s" "head s1 = head s + 1" "tail s1 = tail s"
    using pre [of idx "s\<lparr> head := head s + 1 \<rparr>"] by (simp_all add: s1_def)
  have q1: "queued s1 = queued s" by (simp add: queued_def f1)
  have inv1: "bfs_inv ?N m0 v s1"
    using inv run unfolding bfs_inv_def q1 by (simp add: f1)
  have st: "bfs_step pre ok v w h s = bfs_scan ok v w h idx s1"
    by (simp add: bfs_step_def rd s1_def)
  have "bfs_ext ?N m0 v (bfs_edges w h ok m0) idx s1 (bfs_scan ok v w h idx s1)"
    by (rule bfs_scan_ext(1) [OF inv1 ilt])
  then show ?thesis unfolding st bfs_ext_def by (simp add: f1)
qed

lemma bfs_loop_done:
  assumes Pt: "bfs_loop_inv N m0 v E S0 t" and ht: "head t = tail t"
  shows "queued t = E\<^sup>* `` S0"
proof -
  have S0: "S0 \<subseteq> queued t" and snd: "queued t \<subseteq> E\<^sup>* `` S0"
    and cl: "\<forall>k<head t. \<forall>n. (queue t ! k, n) \<in> E \<longrightarrow> n \<in> queued t"
    using Pt by (simp_all add: bfs_loop_inv_def)
  have len: "length (queue t) = N" and tl: "tail t \<le> N"
    using Pt by (simp_all add: bfs_loop_inv_def bfs_inv_def)
  have closed: "n \<in> queued t" if "p \<in> queued t" "(p, n) \<in> E" for p n
  proof -
    from that(1) obtain k where "k < tail t" "queue t ! k = p"
      unfolding queued_def using tl len by (auto simp: in_set_conv_nth)
    then show ?thesis using cl ht that(2) by auto
  qed
  have "E\<^sup>* `` S0 \<subseteq> queued t"
  proof
    fix n assume "n \<in> E\<^sup>* `` S0"
    then obtain a where a: "a \<in> S0" "(a, n) \<in> E\<^sup>*" by auto
    from a(2) show "n \<in> queued t"
    proof (induction rule: rtrancl_induct)
      case base
      then show ?case using a(1) S0 by auto
    next
      case (step y z)
      then show ?case using closed by blast
    qed
  qed
  then show ?thesis using snd by auto
qed

lemma bfs_loop_result:
  fixes s0 :: "'a bfs_state_scheme"
  assumes li: "bfs_loop_inv (w * h) m0 v (bfs_edges w h ok m0) S0 s0"
    and pre: "\<And>i t. visited (pre i t) = visited t \<and> queue (pre i t) = queue t \<and>
                      head (pre i t) = head t \<and> tail (pre i t) = tail t"
  shows "\<exists>s'. while_option (\<lambda>s. head s < tail s) (bfs_step pre ok v w h) s0 = Some s' \<and>
           bfs_loop_inv (w * h) m0 v (bfs_edges w h ok m0) S0 s' \<and> head s' = tail s' \<and>
           queued s' = (bfs_edges w h ok m0)\<^sup>* `` S0"
proof -
  let ?E = "bfs_edges w h ok m0"
  let ?N = "w * h"
  let ?P = "bfs_loop_inv ?N m0 v ?E S0"
  let ?b = "\<lambda>s. head s < tail s"
  let ?c = "bfs_step pre ok v w h"
  have halts: "\<exists>t. while_option ?b ?c s0 = Some t"
  proof (rule measure_while_option_Some [where P = ?P and f = "\<lambda>s. ?N - head s"])
    fix s :: "'a bfs_state_scheme"
    assume P: "?P s" and b: "?b s"
    have "tail s \<le> ?N" using P by (simp add: bfs_loop_inv_def bfs_inv_def)
    then show "?P (?c s) \<and> ?N - head (?c s) < ?N - head s"
      using bfs_step_inv [OF P b pre] b by simp
  qed (rule li)
  from halts obtain t where t: "while_option ?b ?c s0 = Some t" by blast
  have Pt: "?P t"
    by (rule while_option_rule [where P = ?P, OF _ t li]) (rule bfs_step_inv(1) [OF _ _ pre])
  have "\<not> ?b t" by (rule while_option_stop [OF t])
  moreover have "head t \<le> tail t" using Pt by (simp add: bfs_loop_inv_def bfs_inv_def)
  ultimately have ht: "head t = tail t" by simp
  have "queued t = ?E\<^sup>* `` S0" by (rule bfs_loop_done [OF Pt ht])
  then show ?thesis using t Pt ht by blast
qed


section \<open>Region growing: admission and the queue bound\<close>




lemma bfs_inv_empty:
  "v \<noteq> 0 \<Longrightarrow> length m0 = N \<Longrightarrow>
   bfs_inv N m0 v \<lparr> visited = m0, queue = replicate N 0, head = 0, tail = 0, \<dots> = z \<rparr>"
  by (simp add: bfs_inv_def queued_def)










section \<open>Hole filling keeps exactly the background connected to the border\<close>

lemma enqueueIfBackground_bfs:
  "enqueueIfBackground msk idx s = bfs_push (rdN msk idx \<noteq> Some 1) 1 idx s"
  by (simp add: enqueueIfBackground_def bfs_push_def)

lemma fill_step_bfs:
  "fill_step msk width height =
     bfs_step (\<lambda>i t. t) (\<lambda>p n. rdN msk n \<noteq> Some 1) 1 width height"
  by (rule ext)
     (simp add: fill_step_def bfs_step_def bfs_scan_def enqueueIfBackground_bfs Let_def
           split: option.splits)

lemma fold_bfs_push:
  assumes "bfs_inv N m0 v s" and "\<forall>x\<in>set xs. x < N"
  shows "bfs_inv N m0 v (fold (\<lambda>x. bfs_push (ok x) v x) xs s) \<and>
         queued (fold (\<lambda>x. bfs_push (ok x) v x) xs s) =
           queued s \<union> {x \<in> set xs. ok x \<and> m0 ! x = 0} \<and>
         head (fold (\<lambda>x. bfs_push (ok x) v x) xs s) = head s"
  using assms
proof (induction xs arbitrary: s)
  case Nil
  then show ?case by simp
next
  case (Cons x xs)
  have x: "x < N" using Cons.prems(2) by simp
  have vis: "\<forall>i<N. visited s ! i = (if i \<in> queued s then v else m0 ! i)"
    and len: "length (visited s) = N" and v: "v \<noteq> 0"
    using Cons.prems(1) by (simp_all add: bfs_inv_def)
  let ?s = "bfs_push (ok x) v x s"
  have step: "bfs_inv N m0 v ?s \<and>
      queued ?s = queued s \<union> {y \<in> {x}. ok y \<and> m0 ! y = 0} \<and> head ?s = head s"
  proof (cases "truthyU (visited s) x \<or> \<not> ok x")
    case True
    have "x \<in> queued s" if "ok x" "m0 ! x = 0"
    proof -
      have "visited s ! x \<noteq> 0" using True that by (simp add: truthyU_def)
      then show ?thesis using vis x that by (auto split: if_splits)
    qed
    then show ?thesis
      using True Cons.prems(1) by (auto simp: bfs_push_old)
  next
    case False
    then have f: "\<not> truthyU (visited s) x" and ok: "ok x" by simp_all
    note P = bfs_push_new [OF Cons.prems(1) x f ok]
    show ?thesis
      using P(1,2,4) f ok by (auto simp: bfs_push_def)
  qed
  have "bfs_inv N m0 v (fold (\<lambda>x. bfs_push (ok x) v x) xs ?s) \<and>
         queued (fold (\<lambda>x. bfs_push (ok x) v x) xs ?s) =
           queued ?s \<union> {x \<in> set xs. ok x \<and> m0 ! x = 0} \<and>
         head (fold (\<lambda>x. bfs_push (ok x) v x) xs ?s) = head ?s"
    by (rule Cons.IH) (use step Cons.prems(2) in simp_all)
  then show ?case using step by auto
qed

lemma set_border_list:
  assumes w: "0 < w" and h: "0 < h"
  shows "set (border_list w h) = {i. border_px w h i}"
proof (rule set_eqI)
  fix i
  have L: "i \<in> set (border_list w h) \<longleftrightarrow>
      (\<exists>x<w. i = x \<or> i = (h - 1) * w + x) \<or> (\<exists>y<h. i = y * w \<or> i = y * w + (w - 1))"
    unfolding border_list_def by (auto simp del: One_nat_def)
  show "i \<in> set (border_list w h) \<longleftrightarrow> i \<in> {i. border_px w h i}"
  proof
    assume "i \<in> set (border_list w h)"
    then consider (t) x where "x < w" "i = x" | (b) x where "x < w" "i = (h - 1) * w + x"
      | (l) y where "y < h" "i = y * w" | (r) y where "y < h" "i = y * w + (w - 1)"
      unfolding L by blast
    then have "border_px w h i"
    proof cases
      case t
      then have "i = 0 * w + x" by simp
      then show ?thesis using t pixel_index_less [of x w 0 h] h by (simp add: border_px_def)
    next
      case b
      then have "i div w = h - 1" by simp
      then show ?thesis using b pixel_index_less [of x w "h - 1" h] h by (simp add: border_px_def)
    next
      case l
      then have "i = y * w + 0" "i mod w = 0" by simp_all
      then show ?thesis using l pixel_index_less [of 0 w y h] w by (simp add: border_px_def)
    next
      case r
      define x where "x = w - 1"
      have "i = y * w + x" "x < w" using r w by (simp_all add: x_def)
      then have "i mod w = x" by simp
      then show ?thesis
        using r \<open>i = y * w + x\<close> \<open>x < w\<close> pixel_index_less [of x w y h]
        by (simp add: border_px_def x_def)
    qed
    then show "i \<in> {i. border_px w h i}" by simp
  next
    assume "i \<in> {i. border_px w h i}"
    then have lt: "i < w * h"
      and c: "i div w = 0 \<or> i div w = h - 1 \<or> i mod w = 0 \<or> i mod w = w - 1"
      by (simp_all add: border_px_def)
    define y where "y = i div w"
    define x where "x = i mod w"
    have i: "i = y * w + x" and x: "x < w" and y: "y < h"
      using w lt by (simp_all add: x_def y_def less_mult_imp_div_less mult.commute)
    from c consider "y = 0" | "y = h - 1" | "x = 0" | "x = w - 1"
      unfolding x_def y_def by (elim disjE) simp_all
    then show "i \<in> set (border_list w h)"
    proof cases
      case 1 then show ?thesis unfolding L using i x by auto
    next
      case 2 then show ?thesis unfolding L using i x by auto
    next
      case 3 then show ?thesis unfolding L using i y by auto
    next
      case 4 then show ?thesis unfolding L using i y by auto
    qed
  qed
qed

lemma fill_init_bfs:
  "fill_init msk width height =
     fold (\<lambda>i. bfs_push (rdN msk i \<noteq> Some 1) 1 i) (border_list width height)
       \<lparr> visited = replicate (width * height) 0, queue = replicate (width * height) 0,
         head = 0, tail = 0 \<rparr>"
proof -
  let ?f = "\<lambda>i. bfs_push (rdN msk i \<noteq> Some 1) 1 i :: bfs_state \<Rightarrow> bfs_state"
  have 1: "fold (\<lambda>x s. enqueueIfBackground msk ((height - 1) * width + x)
                            (enqueueIfBackground msk x s)) [0..<width] =
           fold ?f (concat (map (\<lambda>x. [x, (height - 1) * width + x]) [0..<width]))"
    unfolding enqueueIfBackground_bfs by (rule fold_pairs)
  have 2: "fold (\<lambda>y s. enqueueIfBackground msk (y * width + (width - 1))
                            (enqueueIfBackground msk (y * width) s)) [0..<height] =
           fold ?f (concat (map (\<lambda>y. [y * width, y * width + (width - 1)]) [0..<height]))"
    unfolding enqueueIfBackground_bfs by (rule fold_pairs)
  show ?thesis
    unfolding fill_init_def Let_def 1 2 border_list_def by simp
qed


lemma nbr4_adj4:
  assumes p: "p < w * h"
  shows "nbr4 w h p n \<longleftrightarrow> adj4 w h p n"
proof -
  have w: "0 < w" using p by (cases w) simp_all
  define x where "x = p mod w"
  define y where "y = p div w"
  have pe: "p = y * w + x" and x: "x < w" and y: "y < h"
    using w p by (simp_all add: x_def y_def less_mult_imp_div_less mult.commute)
  show ?thesis
  proof
    assume nb: "nbr4 w h p n"
    then have n: "n < w * h" by (rule nbr4_less [OF p])
    from nb consider (l) "x > 0" "n = p - 1" | (r) "x < w - 1" "n = p + 1"
      | (u) "y > 0" "n = p - w" | (d) "y < h - 1" "n = p + w"
      unfolding nbr4_def x_def y_def by (elim disjE conjE) simp_all
    then have "(n div w = y \<and> (n mod w + 1 = x \<or> x + 1 = n mod w)) \<or>
               (n mod w = x \<and> (n div w + 1 = y \<or> y + 1 = n div w))"
    proof cases
      case l
      then have "n = y * w + (x - 1)" "x - 1 < w" using pe x by simp_all
      then have "n div w = y" "n mod w = x - 1" by simp_all
      then show ?thesis using l by simp
    next
      case r
      define x1 where "x1 = x + 1"
      have "n = y * w + x1" "x1 < w" using r pe by (simp_all add: x1_def)
      then have "n div w = y" "n mod w = x1" by simp_all
      then show ?thesis by (simp add: x1_def)
    next
      case u
      then obtain y' where y': "y = Suc y'" by (cases y) simp_all
      then have "n = y' * w + x" using u pe by simp
      then have "n div w = y'" "n mod w = x" using x by simp_all
      then show ?thesis using y' by simp
    next
      case d
      define y1 where "y1 = y + 1"
      have "n = y1 * w + x" using d pe by (simp add: y1_def)
      then have "n div w = y1" "n mod w = x" using x by simp_all
      then show ?thesis by (simp add: y1_def)
    qed
    then show "adj4 w h p n"
      unfolding adj4_def using p n by (auto simp: x_def y_def)
  next
    assume a: "adj4 w h p n"
    then have n: "n < w * h" by (simp add: adj4_def)
    define x' where "x' = n mod w"
    define y' where "y' = n div w"
    have ne: "n = y' * w + x'" and x': "x' < w" and y': "y' < h"
      using w n by (simp_all add: x'_def y'_def less_mult_imp_div_less mult.commute)
    from a consider (r) "y = y'" "x + 1 = x'" | (l) "y = y'" "x' + 1 = x"
      | (d) "x = x'" "y + 1 = y'" | (u) "x = x'" "y' + 1 = y"
      unfolding adj4_def x_def y_def x'_def y'_def by (elim disjE conjE) simp_all
    then show "nbr4 w h p n"
    proof cases
      case r
      then have "n = p + 1" "x < w - 1" using pe ne x' by simp_all
      then show ?thesis by (simp add: nbr4_def x_def)
    next
      case l
      then have "n = p - 1" "x > 0" using pe ne by simp_all
      then show ?thesis by (simp add: nbr4_def x_def)
    next
      case d
      then have ye: "y' = Suc y" by simp
      have "n = Suc y * w + x" using ne d(1) unfolding ye by simp
      then have "n = p + w" using pe by simp
      moreover have "y < h - 1" using y' ye by simp
      ultimately show ?thesis by (simp add: nbr4_def y_def)
    next
      case u
      then have ye: "y = Suc y'" by simp
      have "p = Suc y' * w + x'" using pe u(1) unfolding ye by simp
      then have "n = p - w" using ne by simp
      moreover have "y > 0" using ye by simp
      ultimately show ?thesis by (simp add: nbr4_def y_def)
    qed
  qed
qed

lemma fill_result_nth:
  "length (fill_result msk n vis) = length msk"
  "i < length msk \<Longrightarrow> fill_result msk n vis ! i =
     (if i < n \<and> msk ! i = 0 \<and> \<not> truthyU vis i then 1 else msk ! i)"
proof -
  let ?f = "\<lambda>i result. if rdN msk i = Some 0 \<and> \<not> truthyU vis i
                 then result[i := 1] else result"
  have gen: "length (fold ?f [0..<k] r) = length r \<and>
      (\<forall>i<length r. fold ?f [0..<k] r ! i =
         (if i < k \<and> rdN msk i = Some 0 \<and> \<not> truthyU vis i then 1 else r ! i))" for k r
  proof (induction k)
    case 0
    show ?case by simp
  next
    case (Suc k)
    let ?F = "fold ?f [0..<k] r"
    have F: "fold ?f [0..<Suc k] r = ?f k ?F" by simp
    have len: "length ?F = length r"
      and ih: "\<And>i. i < length r \<Longrightarrow> ?F ! i =
         (if i < k \<and> rdN msk i = Some 0 \<and> \<not> truthyU vis i then 1 else r ! i)"
      using Suc by simp_all
    show ?case
    proof (intro conjI allI impI)
      show "length (fold ?f [0..<Suc k] r) = length r"
        unfolding F using len by simp
      fix i assume i: "i < length r"
      show "fold ?f [0..<Suc k] r ! i =
         (if i < Suc k \<and> rdN msk i = Some 0 \<and> \<not> truthyU vis i then 1 else r ! i)"
      proof (cases "i = k")
        case True
        then show ?thesis unfolding F using i len ih [OF i] by simp
      next
        case False
        then have "?f k ?F ! i = ?F ! i" by simp
        then show ?thesis unfolding F using False ih [OF i] by (simp add: less_Suc_eq)
      qed
    qed
  qed
  show "length (fill_result msk n vis) = length msk"
    using gen [of n msk] by (simp add: fill_result_def)
  show "fill_result msk n vis ! i =
     (if i < n \<and> msk ! i = 0 \<and> \<not> truthyU vis i then 1 else msk ! i)" if "i < length msk"
    using gen [of n msk] that by (simp add: fill_result_def rdN_def)
qed


lemma binary_nth:
  assumes "set msk \<subseteq> {0, 1}" and "n < length msk"
  shows "msk ! n = 0 \<or> msk ! n = (1::nat)"
proof -
  have "msk ! n \<in> set msk" using assms(2) by (rule nth_mem)
  then show ?thesis using assms(1) by auto
qed

lemma border_connected_zero:
  assumes "border_connected msk w h i"
  shows "i < w * h \<and> msk ! i = 0"
proof -
  from assms obtain b where b: "border_px w h b" "msk ! b = 0" "(b, i) \<in> (zero_adj msk w h)\<^sup>*"
    by (auto simp: border_connected_def)
  from b(3) show ?thesis
    by (induction rule: rtrancl_induct)
       (use b(1,2) in \<open>auto simp: border_px_def zero_adj_def adj4_def\<close>)
qed

lemma border_connected_step:
  "border_connected msk w h i \<Longrightarrow> (i, j) \<in> zero_adj msk w h \<Longrightarrow> border_connected msk w h j"
  unfolding border_connected_def by (blast intro: rtrancl_into_rtrancl)

lemma fill_reach:
  assumes len: "length msk = w * h" and bin: "set msk \<subseteq> {0, 1}"
  shows "(bfs_edges w h (\<lambda>p n. rdN msk n \<noteq> Some 1) (replicate (w * h) 0))\<^sup>* ``
           {b. border_px w h b \<and> msk ! b = 0} = {i. border_connected msk w h i}"
    (is "?E\<^sup>* `` ?S = ?R")
proof -
  have val: "msk ! n = 0 \<or> msk ! n = 1" if "n < w * h" for n
    using binary_nth [OF bin, of n] len that by simp
  have EZ: "(p, n) \<in> zero_adj msk w h" if "(p, n) \<in> ?E" "p < w * h" "msk ! p = 0" for p n
  proof -
    have nb: "nbr4 w h p n" and ok: "rdN msk n \<noteq> Some 1"
      using that(1) by (simp_all add: bfs_edges_def)
    have n: "n < w * h" by (rule nbr4_less [OF that(2) nb])
    then have "msk ! n = 0" using ok val [OF n] len by (auto simp: rdN_def)
    then show ?thesis
      using nb that(2,3) by (simp add: zero_adj_def nbr4_adj4)
  qed
  have ZE: "(p, n) \<in> ?E" if "(p, n) \<in> zero_adj msk w h" for p n
  proof -
    have a: "adj4 w h p n" and z: "msk ! n = 0" using that by (simp_all add: zero_adj_def)
    then have p: "p < w * h" and n: "n < w * h" by (simp_all add: adj4_def)
    show ?thesis
      using a z p n len by (simp add: bfs_edges_def nbr4_adj4 rdN_def)
  qed
  show ?thesis
  proof (intro equalityI subsetI)
    fix i assume "i \<in> ?E\<^sup>* `` ?S"
    then obtain b where b: "border_px w h b" "msk ! b = 0" "(b, i) \<in> ?E\<^sup>*" by auto
    from b(3) have "border_connected msk w h i"
    proof (induction rule: rtrancl_induct)
      case base
      show ?case using b(1,2) by (auto simp: border_connected_def)
    next
      case (step y z)
      have "y < w * h \<and> msk ! y = 0" by (rule border_connected_zero [OF step.IH])
      then have "(y, z) \<in> zero_adj msk w h" using EZ step.hyps(2) by simp
      then show ?case by (rule border_connected_step [OF step.IH])
    qed
    then show "i \<in> ?R" by simp
  next
    fix i assume "i \<in> ?R"
    then obtain b where b: "border_px w h b" "msk ! b = 0" "(b, i) \<in> (zero_adj msk w h)\<^sup>*"
      by (auto simp: border_connected_def)
    from b(3) have "(b, i) \<in> ?E\<^sup>*"
      by (induction rule: rtrancl_induct) (blast intro: rtrancl_into_rtrancl ZE)+
    then show "i \<in> ?E\<^sup>* `` ?S" using b(1,2) by auto
  qed
qed

lemma fill_run:
  assumes w: "0 < w" and h: "0 < h" and len: "length msk = w * h" and bin: "set msk \<subseteq> {0, 1}"
  shows "\<exists>s. while_option (\<lambda>s. head s < tail s) (fill_step msk w h) (fill_init msk w h) = Some s \<and>
           length (visited s) = w * h \<and>
           (\<forall>i<w * h. visited s ! i = (if border_connected msk w h i then 1 else 0))"
proof -
  let ?N = "w * h"
  let ?m0 = "replicate ?N (0::nat)"
  let ?ok = "\<lambda>(p::nat) n. rdN msk n \<noteq> Some 1"
  let ?E = "bfs_edges w h ?ok ?m0"
  let ?S = "{b. border_px w h b \<and> msk ! b = 0}"
  let ?e = "\<lparr> visited = ?m0, queue = replicate ?N 0, head = 0, tail = 0 \<rparr>"
  have val: "msk ! n = 0 \<or> msk ! n = 1" if "n < ?N" for n
    using binary_nth [OF bin, of n] len that by simp
  have e: "bfs_inv ?N ?m0 1 ?e" by (rule bfs_inv_empty) simp_all
  have bl: "\<forall>x\<in>set (border_list w h). x < ?N"
    using set_border_list [OF w h] by (auto simp: border_px_def)
  have S: "{x \<in> set (border_list w h). rdN msk x \<noteq> Some 1 \<and> ?m0 ! x = 0} = ?S"
    using set_border_list [OF w h] val len by (auto simp: border_px_def rdN_def)
  from fold_bfs_push [OF e bl, of "\<lambda>i. rdN msk i \<noteq> Some 1"]
  have init: "bfs_inv ?N ?m0 1 (fill_init msk w h)" "queued (fill_init msk w h) = ?S"
      "head (fill_init msk w h) = 0"
    unfolding fill_init_bfs S by (simp_all add: queued_def)
  have li: "bfs_loop_inv ?N ?m0 1 ?E ?S (fill_init msk w h)"
    using init by (auto simp: bfs_loop_inv_def)
  from bfs_loop_result [OF li, of "\<lambda>i t. t"]
  obtain s where s: "while_option (\<lambda>s. head s < tail s) (fill_step msk w h) (fill_init msk w h) = Some s"
      "bfs_loop_inv ?N ?m0 1 ?E ?S s" "queued s = ?E\<^sup>* `` ?S"
    unfolding fill_step_bfs by auto
  have q: "queued s = {i. border_connected msk w h i}"
    unfolding s(3) by (rule fill_reach [OF len bin])
  have inv: "bfs_inv ?N ?m0 1 s" using s(2) by (simp add: bfs_loop_inv_def)
  have "length (visited s) = ?N"
    and "\<forall>i<?N. visited s ! i = (if i \<in> queued s then 1 else ?m0 ! i)"
    using inv by (simp_all add: bfs_inv_def)
  then show ?thesis using s(1) q by auto
qed

lemma fill_value:
  assumes w: "0 < w" and h: "0 < h" and len: "length msk = w * h" and bin: "set msk \<subseteq> {0, 1}"
  shows "\<exists>r. fillMaskHoles msk w h = Some r \<and> length r = w * h \<and>
           (\<forall>i<w * h. r ! i = (if msk ! i = 0 \<and> \<not> border_connected msk w h i then 1 else msk ! i))"
proof -
  from fill_run [OF assms]
  obtain s where s: "while_option (\<lambda>s. head s < tail s) (fill_step msk w h) (fill_init msk w h) = Some s"
      "length (visited s) = w * h"
      "\<forall>i<w * h. visited s ! i = (if border_connected msk w h i then 1 else 0)"
    by blast
  let ?r = "fill_result msk (w * h) (visited s)"
  have "fillMaskHoles msk w h = Some ?r" by (simp add: fillMaskHoles_def s(1))
  moreover have "length ?r = w * h" by (simp add: fill_result_nth len)
  moreover have "?r ! i = (if msk ! i = 0 \<and> \<not> border_connected msk w h i then 1 else msk ! i)"
    if "i < w * h" for i
    using that s(2,3) len by (simp add: fill_result_nth truthyU_def)
  ultimately show ?thesis by blast
qed


lemma fill_zero_connected:
  assumes len: "length r = w * h" and i: "i < w * h"
    and r: "\<forall>i<w * h. r ! i = (if msk ! i = 0 \<and> \<not> border_connected msk w h i then 1 else msk ! i)"
    and z: "r ! i = 0"
  shows "border_connected r w h i"
proof -
  have rz: "r ! j = 0" if "border_connected msk w h j" for j
    using border_connected_zero [OF that] that r by simp
  have bc: "border_connected msk w h i"
    using r i z by (auto split: if_splits)
  then obtain b where b: "border_px w h b" "msk ! b = 0" "(b, i) \<in> (zero_adj msk w h)\<^sup>*"
    by (auto simp: border_connected_def)
  have bb: "border_connected msk w h b"
    using b(1,2) by (auto simp: border_connected_def)
  from b(3) have "(b, i) \<in> (zero_adj r w h)\<^sup>* \<and> border_connected msk w h i"
  proof (induction rule: rtrancl_induct)
    case base
    show ?case using bb by simp
  next
    case (step y z)
    have z: "border_connected msk w h z"
      using step.IH step.hyps(2) by (blast intro: border_connected_step)
    have "adj4 w h y z" using step.hyps(2) by (simp add: zero_adj_def)
    then have "(y, z) \<in> zero_adj r w h"
      using rz [OF z] rz step.IH by (simp add: zero_adj_def)
    then show ?case using step.IH z by (blast intro: rtrancl_into_rtrancl)
  qed
  then show ?thesis
    using b(1) rz [OF bb] unfolding border_connected_def by blast
qed

lemma square_le:
  fixes a :: int
  assumes "\<bar>a\<bar> \<le> k" and "0 \<le> k"
  shows "a * a \<le> k * k"
proof -
  have "a * a = \<bar>a\<bar> * \<bar>a\<bar>" by (simp add: abs_mult_self_eq)
  also have "\<dots> \<le> k * k" using assms by (intro mult_mono) simp_all
  finally show ?thesis .
qed

lemma hole_enclosed:
  assumes r2: "5 \<le> r2" and c: "2 \<le> cx" "cx + 2 < w" "2 \<le> cy" "cy + 2 < h"
    and i: "in_hole w cx cy i"
  shows "\<not> border_connected (disk_with_hole w h cx cy r2) w h i"
proof
  let ?m = "disk_with_hole w h cx cy r2"
  assume "border_connected ?m w h i"
  then obtain b where b: "border_px w h b" "(b, i) \<in> (zero_adj ?m w h)\<^sup>*"
    by (auto simp: border_connected_def)
  have inward: "in_hole w cx cy j" if e: "(j, k) \<in> zero_adj ?m w h" and k: "in_hole w cx cy k" for j k
  proof -
    have a: "adj4 w h j k" and z: "?m ! j = 0" using e by (simp_all add: zero_adj_def)
    have j: "j < w * h" using a by (simp add: adj4_def)
    define xj where "xj = int (j mod w) - int cx"
    define yj where "yj = int (j div w) - int cy"
    have kx: "\<bar>int (k mod w) - int cx\<bar> \<le> 1" and ky: "\<bar>int (k div w) - int cy\<bar> \<le> 1"
      using k by (simp_all add: in_hole_def)
    have lift: "int m + 1 = int n" if "m + 1 = n" for m n :: nat
      using that by (simp flip: of_nat_eq_iff [where 'a = int])
    from a consider
        "j div w = k div w" "j mod w + 1 = k mod w"
      | "j div w = k div w" "k mod w + 1 = j mod w"
      | "j mod w = k mod w" "j div w + 1 = k div w"
      | "j mod w = k mod w" "k div w + 1 = j div w"
      unfolding adj4_def by blast
    then have "(\<bar>xj\<bar> \<le> 2 \<and> \<bar>yj\<bar> \<le> 1) \<or> (\<bar>xj\<bar> \<le> 1 \<and> \<bar>yj\<bar> \<le> 2)"
    proof cases
      case 1
      have "int (j div w) = int (k div w) \<or> int (j mod w) = int (k mod w)" using 1(1) by simp
      then show ?thesis unfolding xj_def yj_def using kx ky lift [OF 1(2)]
        by (intro disjI1 conjI) linarith+
    next
      case 2
      have "int (j div w) = int (k div w) \<or> int (j mod w) = int (k mod w)" using 2(1) by simp
      then show ?thesis unfolding xj_def yj_def using kx ky lift [OF 2(2)]
        by (intro disjI1 conjI) linarith+
    next
      case 3
      have "int (j div w) = int (k div w) \<or> int (j mod w) = int (k mod w)" using 3(1) by simp
      then show ?thesis unfolding xj_def yj_def using kx ky lift [OF 3(2)]
        by (intro disjI2 conjI) linarith+
    next
      case 4
      have "int (j div w) = int (k div w) \<or> int (j mod w) = int (k mod w)" using 4(1) by simp
      then show ?thesis unfolding xj_def yj_def using kx ky lift [OF 4(2)]
        by (intro disjI2 conjI) linarith+
    qed
    then have "xj * xj + yj * yj \<le> 5"
    proof
      assume "\<bar>xj\<bar> \<le> 2 \<and> \<bar>yj\<bar> \<le> 1"
      then have "xj * xj \<le> 2 * 2" "yj * yj \<le> 1 * 1"
        using square_le [of xj 2] square_le [of yj 1] by simp_all
      then show ?thesis by simp
    next
      assume "\<bar>xj\<bar> \<le> 1 \<and> \<bar>yj\<bar> \<le> 2"
      then have "xj * xj \<le> 1 * 1" "yj * yj \<le> 2 * 2"
        using square_le [of xj 1] square_le [of yj 2] by simp_all
      then show ?thesis by simp
    qed
    then have "in_disk w cx cy r2 j"
      using r2 by (simp add: in_disk_def xj_def yj_def)
    then show ?thesis
      using z j by (auto simp: disk_with_hole_def split: if_splits)
  qed
  from b(2) i have "in_hole w cx cy b"
    by (induction rule: converse_rtrancl_induct) (auto intro: inward)
  then have "\<bar>int (b mod w) - int cx\<bar> \<le> 1" "\<bar>int (b div w) - int cy\<bar> \<le> 1"
    by (simp_all add: in_hole_def)
  then have "1 \<le> b mod w" "b mod w + 1 < w" "1 \<le> b div w" "b div w + 1 < h"
    using c by linarith+
  then show False using b(1) by (auto simp: border_px_def)
qed


lemma disk_with_hole_binary:
  "length (disk_with_hole w h cx cy r2) = w * h" "set (disk_with_hole w h cx cy r2) \<subseteq> {0, 1}"
  by (auto simp: disk_with_hole_def)

text \<open>
  C5. For a binary mask of \<open>width * height\<close> cells (\<open>width, height \<ge> 1\<close>),
  \<open>fillMaskHoles\<close> terminates and returns a binary mask of the same size in which a pixel
  is 1 exactly when it was 1 in the input, or it was 0 and no path of 4-adjacent input-0
  pixels connects it to a border pixel; every 0 pixel of the output is connected to the
  border through 0 pixels of the output. For a disk of squared radius at least 5 with
  its 3 by 3 centre punched out, the hole away from the image border, every pixel of the
  disk is 1 after hole filling.
\<close>

theorem fillMaskHoles_closes_holes:
  "(0 < width \<and> 0 < height \<and> length msk = width * height \<and> set msk \<subseteq> {0, 1} \<longrightarrow>
      (\<exists>r. fillMaskHoles msk width height = Some r \<and> length r = width * height \<and>
         (\<forall>i<width * height.
            (r ! i = 1 \<longleftrightarrow>
               msk ! i = 1 \<or> (msk ! i = 0 \<and> \<not> border_connected msk width height i)) \<and>
            (r ! i = 0 \<or> r ! i = 1) \<and>
            (r ! i = 0 \<longrightarrow> border_connected r width height i)))) \<and>
   (5 \<le> r2 \<and> 2 \<le> cx \<and> cx + 2 < width \<and> 2 \<le> cy \<and> cy + 2 < height \<longrightarrow>
      (\<exists>r. fillMaskHoles (disk_with_hole width height cx cy r2) width height = Some r \<and>
         (\<forall>i<width * height. in_disk width cx cy r2 i \<longrightarrow> r ! i = 1)))"
proof (intro conjI impI)
  assume a: "0 < width \<and> 0 < height \<and> length msk = width * height \<and> set msk \<subseteq> {0, 1}"
  then have w: "0 < width" and h: "0 < height" and len: "length msk = width * height"
    and bin: "set msk \<subseteq> {0, 1}" by simp_all
  from fill_value [OF w h len bin]
  obtain r where r: "fillMaskHoles msk width height = Some r" "length r = width * height"
      "\<forall>i<width * height. r ! i =
         (if msk ! i = 0 \<and> \<not> border_connected msk width height i then 1 else msk ! i)"
    by blast
  have "(r ! i = 1 \<longleftrightarrow> msk ! i = 1 \<or> (msk ! i = 0 \<and> \<not> border_connected msk width height i)) \<and>
        (r ! i = 0 \<or> r ! i = 1) \<and> (r ! i = 0 \<longrightarrow> border_connected r width height i)"
    if i: "i < width * height" for i
  proof -
    have v: "msk ! i = 0 \<or> msk ! i = 1" using binary_nth [OF bin, of i] i len by simp
    have ri: "r ! i = (if msk ! i = 0 \<and> \<not> border_connected msk width height i then 1 else msk ! i)"
      using r(3) i by simp
    have 1: "r ! i = 1 \<longleftrightarrow> msk ! i = 1 \<or> (msk ! i = 0 \<and> \<not> border_connected msk width height i)"
      unfolding ri using v by auto
    have 2: "r ! i = 0 \<or> r ! i = 1" unfolding ri using v by auto
    have 3: "r ! i = 0 \<longrightarrow> border_connected r width height i"
      using fill_zero_connected [OF r(2) i r(3)] by blast
    show ?thesis using 1 2 3 by blast
  qed
  then show "\<exists>r. fillMaskHoles msk width height = Some r \<and> length r = width * height \<and>
         (\<forall>i<width * height.
            (r ! i = 1 \<longleftrightarrow>
               msk ! i = 1 \<or> (msk ! i = 0 \<and> \<not> border_connected msk width height i)) \<and>
            (r ! i = 0 \<or> r ! i = 1) \<and>
            (r ! i = 0 \<longrightarrow> border_connected r width height i))"
    using r(1,2) by blast
next
  assume a: "5 \<le> r2 \<and> 2 \<le> cx \<and> cx + 2 < width \<and> 2 \<le> cy \<and> cy + 2 < height"
  let ?m = "disk_with_hole width height cx cy r2"
  have w: "0 < width" and h: "0 < height" using a by simp_all
  from fill_value [OF w h disk_with_hole_binary]
  obtain r where r: "fillMaskHoles ?m width height = Some r"
      "\<forall>i<width * height. r ! i =
         (if ?m ! i = 0 \<and> \<not> border_connected ?m width height i then 1 else ?m ! i)"
    by blast
  have "r ! i = 1" if i: "i < width * height" and d: "in_disk width cx cy r2 i" for i
  proof (cases "in_hole width cx cy i")
    case True
    have "\<not> border_connected ?m width height i"
      by (rule hole_enclosed [OF _ _ _ _ _ True]) (use a in simp_all)
    moreover have "?m ! i = 0" using True i by (simp add: disk_with_hole_def)
    ultimately show ?thesis using r(2) i by simp
  next
    case False
    then have "?m ! i = 1" using d i by (simp add: disk_with_hole_def)
    then show ?thesis using r(2) i by simp
  qed
  then show "\<exists>r. fillMaskHoles ?m width height = Some r \<and>
         (\<forall>i<width * height. in_disk width cx cy r2 i \<longrightarrow> r ! i = 1)"
    using r(1) by blast
qed

lemma fill_ring_example:
  "fillMaskHoles [1, 1, 1, 1, 0, 1, 1, 1, 1] 3 3 = Some [1, 1, 1, 1, 1, 1, 1, 1, 1]"
  by code_simp

theorem fillMaskHoles_closes_holes_witness:
  "(0::nat) < 3 \<and> length [1, 1, 1, 1, 0, 1, 1, 1, 1::nat] = 3 * 3 \<and>
   set [1, 1, 1, 1, 0, 1, 1, 1, 1::nat] \<subseteq> {0, 1} \<and>
   fillMaskHoles [1, 1, 1, 1, 0, 1, 1, 1, 1] 3 3 = Some [1, 1, 1, 1, 1, 1, 1, 1, 1] \<and>
   \<not> border_connected [1, 1, 1, 1, 0, 1, 1, 1, 1] 3 3 4 \<and>
   (5::nat) \<le> 5 \<and> (2::nat) \<le> 3 \<and> (3::nat) + 2 < 7 \<and>
   in_disk 7 3 3 5 24 \<and> disk_with_hole 7 7 3 3 5 ! 24 = 0 \<and>
   (\<exists>r. fillMaskHoles (disk_with_hole 7 7 3 3 5) 7 7 = Some r \<and> r ! 24 = 1)"
proof -
  let ?m = "[1, 1, 1, 1, 0, 1, 1, 1, 1::nat]"
  have pre: "0 < (3::nat) \<and> 0 < (3::nat) \<and> length ?m = 3 * 3 \<and> set ?m \<subseteq> {0, 1}" by simp
  from fillMaskHoles_closes_holes [of 3 3 ?m, THEN conjunct1, THEN mp, OF pre]
  obtain r where r: "fillMaskHoles ?m 3 3 = Some r"
      "\<forall>i<3 * 3. (r ! i = 1 \<longleftrightarrow> ?m ! i = 1 \<or> (?m ! i = 0 \<and> \<not> border_connected ?m 3 3 i))"
    by blast
  have re: "r = [1, 1, 1, 1, 1, 1, 1, 1, 1]" using r(1) unfolding fill_ring_example by simp
  have "r ! 4 = 1 \<longleftrightarrow> ?m ! 4 = 1 \<or> (?m ! 4 = 0 \<and> \<not> border_connected ?m 3 3 4)"
    using r(2) by simp
  then have nb: "\<not> border_connected ?m 3 3 4" unfolding re by simp
  have pre2: "(5::nat) \<le> 5 \<and> (2::nat) \<le> 3 \<and> (3::nat) + 2 < 7 \<and> (2::nat) \<le> 3 \<and> (3::nat) + 2 < 7"
    by simp
  from fillMaskHoles_closes_holes [of 7 7 "[]" 5 3 3, THEN conjunct2, THEN mp, OF pre2]
  obtain r' where r': "fillMaskHoles (disk_with_hole 7 7 3 3 5) 7 7 = Some r'"
      "\<forall>i<7 * 7. in_disk 7 3 3 5 i \<longrightarrow> r' ! i = 1"
    by blast
  have d: "in_disk 7 3 3 5 24" by (simp add: in_disk_def)
  then have "r' ! 24 = 1" using r'(2) by simp
  moreover have "disk_with_hole 7 7 3 3 5 ! 24 = 0"
    by (simp add: disk_with_hole_def in_disk_def in_hole_def)
  ultimately show ?thesis
    using fill_ring_example nb d r'(1) by simp
qed

section \<open>The main foreground regions are whole components\<close>

lemma tryLabel_bfs:
  "length (visited s) = N \<Longrightarrow>
   tryLabel msk cid n s = bfs_push (truthyU msk n \<and> n < N) cid n s"
  by (auto simp: tryLabel_def bfs_push_def rdN_def truthyU_def)

lemma bfs_push_length:
  "length (visited (bfs_push ok v n s)) = length (visited s)"
  by (simp add: bfs_push_def)

lemma label_step_bfs:
  assumes len: "length (visited s) = w * h" and rd: "rdN (queue s) (head s) = Some idx"
  shows "label_step msk w h cid s =
         bfs_step (label_pre w h) (\<lambda>p n. truthyU msk n \<and> n < w * h) cid w h s"
proof -
  let ?ok = "\<lambda>p n. truthyU msk n \<and> n < w * h"
  define s0 where "s0 = label_pre w h idx (s\<lparr> head := head s + 1 \<rparr>)"
  define s1 where "s1 = (if idx mod w > 0 then bfs_push (?ok idx (idx - 1)) cid (idx - 1) s0 else s0)"
  define s2 where "s2 = (if idx mod w < w - 1 then bfs_push (?ok idx (idx + 1)) cid (idx + 1) s1 else s1)"
  define s3 where "s3 = (if idx div w > 0 then bfs_push (?ok idx (idx - w)) cid (idx - w) s2 else s2)"
  define s4 where "s4 = (if idx div w < h - 1 then bfs_push (?ok idx (idx + w)) cid (idx + w) s3 else s3)"
  have l0: "length (visited s0) = w * h"
    using len by (simp add: s0_def label_pre_def Let_def)
  have l1: "length (visited s1) = w * h" using l0 by (simp add: s1_def bfs_push_length)
  have l2: "length (visited s2) = w * h" using l1 by (simp add: s2_def bfs_push_length)
  have l3: "length (visited s3) = w * h" using l2 by (simp add: s3_def bfs_push_length)
  have e0: "s0 = (if in_center w h idx
                  then s\<lparr> head := head s + 1, area := area s + 1, touchesCenter := True \<rparr>
                  else s\<lparr> head := head s + 1, area := area s + 1 \<rparr>)"
    by (simp add: s0_def label_pre_def Let_def)
  have e1: "s1 = (if idx mod w > 0 then tryLabel msk cid (idx - 1) s0 else s0)"
    by (simp add: s1_def tryLabel_bfs [OF l0])
  have e2: "s2 = (if idx mod w < w - 1 then tryLabel msk cid (idx + 1) s1 else s1)"
    by (simp add: s2_def tryLabel_bfs [OF l1])
  have e3: "s3 = (if idx div w > 0 then tryLabel msk cid (idx - w) s2 else s2)"
    by (simp add: s3_def tryLabel_bfs [OF l2])
  have e4: "s4 = (if idx div w < h - 1 then tryLabel msk cid (idx + w) s3 else s3)"
    by (simp add: s4_def tryLabel_bfs [OF l3])
  have "bfs_step (label_pre w h) ?ok cid w h s = s4"
    by (simp add: bfs_step_def rd bfs_scan_def Let_def s0_def s1_def s2_def s3_def s4_def)
  moreover have "label_step msk w h cid s = s4"
    unfolding label_step_def rd e4 e3 e2 e1 e0 by (simp add: Let_def)
  ultimately show ?thesis by simp
qed

lemma label_pre_fields:
  "visited (label_pre w h i t) = visited t \<and> queue (label_pre w h i t) = queue t \<and>
   head (label_pre w h i t) = head t \<and> tail (label_pre w h i t) = tail t"
  by (simp add: label_pre_def Let_def)

lemma tryLabel_counters:
  "area (if g then tryLabel msk cid n s else s) = area s"
  "touchesCenter (if g then tryLabel msk cid n s else s) = touchesCenter s"
  by (simp_all add: tryLabel_def)

lemma label_step_counters:
  assumes rd: "rdN (queue s) (head s) = Some idx"
  shows "area (label_step msk w h cid s) = area s + 1"
    and "touchesCenter (label_step msk w h cid s) \<longleftrightarrow> touchesCenter s \<or> in_center w h idx"
  unfolding label_step_def rd by (simp_all add: Let_def tryLabel_counters)

lemma queued_nth:
  assumes "tail s \<le> length (queue s)"
  shows "n \<in> queued s \<longleftrightarrow> (\<exists>k<tail s. queue s ! k = n)"
  unfolding queued_def using assms by (auto simp: in_set_conv_nth)

lemma label_loop:
  fixes s0 :: label_state
  assumes li: "bfs_loop_inv (w * h) m0 cid (bfs_edges w h (\<lambda>p n. truthyU msk n \<and> n < w * h) m0) S0 s0"
    and h0: "head s0 = 0" "area s0 = 0" "\<not> touchesCenter s0"
  shows "\<exists>s'. while_option (\<lambda>s. head s < tail s) (label_step msk w h cid) s0 = Some s' \<and>
           bfs_inv (w * h) m0 cid s' \<and>
           queued s' = (bfs_edges w h (\<lambda>p n. truthyU msk n \<and> n < w * h) m0)\<^sup>* `` S0 \<and>
           area s' = card (queued s') \<and>
           (touchesCenter s' \<longleftrightarrow> (\<exists>n\<in>queued s'. in_center w h n))"
proof -
  let ?ok = "\<lambda>p n. truthyU msk n \<and> n < w * h"
  let ?E = "bfs_edges w h ?ok m0"
  let ?N = "w * h"
  let ?P = "\<lambda>s::label_state. bfs_loop_inv ?N m0 cid ?E S0 s \<and> area s = head s \<and>
              (touchesCenter s \<longleftrightarrow> (\<exists>k<head s. in_center w h (queue s ! k)))"
  let ?b = "\<lambda>s::label_state. head s < tail s"
  let ?c = "label_step msk w h cid"
  have step: "?P (?c s) \<and> head (?c s) = head s + 1 \<and> tail (?c s) \<le> ?N" if P: "?P s" and b: "?b s" for s
  proof -
    have L: "bfs_loop_inv ?N m0 cid ?E S0 s" and a: "area s = head s"
      and tc: "touchesCenter s \<longleftrightarrow> (\<exists>k<head s. in_center w h (queue s ! k))"
      using P by simp_all
    have inv: "bfs_inv ?N m0 cid s" using L by (simp add: bfs_loop_inv_def)
    have len: "length (queue s) = ?N" "length (visited s) = ?N" and tl: "tail s \<le> ?N"
      using inv by (simp_all add: bfs_inv_def)
    define idx where "idx = queue s ! head s"
    have rd: "rdN (queue s) (head s) = Some idx"
      using b tl len by (simp add: rdN_def idx_def)
    have eq: "?c s = bfs_step (label_pre w h) ?ok cid w h s"
      by (rule label_step_bfs [OF len(2) rd])
    note S = bfs_step_inv [where pre = "label_pre w h", OF L b label_pre_fields]
    have pref: "take (tail s) (queue (?c s)) = take (tail s) (queue s)"
      unfolding eq by (rule bfs_step_prefix [where pre = "label_pre w h", OF inv b label_pre_fields])
    have nth: "queue (?c s) ! k = queue s ! k" if "k < tail s" for k
    proof -
      have "queue (?c s) ! k = take (tail s) (queue (?c s)) ! k" using that by simp
      also have "\<dots> = queue s ! k" unfolding pref using that by simp
      finally show ?thesis .
    qed
    have hd: "head (?c s) = head s + 1" unfolding eq by (rule S(2))
    have "touchesCenter (?c s) \<longleftrightarrow> touchesCenter s \<or> in_center w h idx"
      by (rule label_step_counters(2) [OF rd])
    also have "\<dots> \<longleftrightarrow> (\<exists>k<head s + 1. in_center w h (queue s ! k))"
      unfolding tc idx_def by (auto simp: less_Suc_eq)
    also have "\<dots> \<longleftrightarrow> (\<exists>k<head s + 1. in_center w h (queue (?c s) ! k))"
      using nth b by auto
    finally have tc': "touchesCenter (?c s) \<longleftrightarrow> (\<exists>k<head (?c s). in_center w h (queue (?c s) ! k))"
      unfolding hd .
    have "area (?c s) = head (?c s)"
      unfolding hd using label_step_counters(1) [OF rd] a by simp
    moreover have "bfs_loop_inv ?N m0 cid ?E S0 (?c s)" unfolding eq by (rule S(1))
    moreover have "tail (?c s) \<le> ?N" unfolding eq by (rule S(3))
    ultimately show ?thesis using tc' hd by simp
  qed
  have P0: "?P s0" using li h0 by simp
  have halts: "\<exists>t. while_option ?b ?c s0 = Some t"
  proof (rule measure_while_option_Some [where P = ?P and f = "\<lambda>s. ?N - head s"])
    fix s :: label_state
    assume P: "?P s" and b: "?b s"
    have "tail s \<le> ?N" using P by (simp add: bfs_loop_inv_def bfs_inv_def)
    then show "?P (?c s) \<and> ?N - head (?c s) < ?N - head s"
      using step [OF P b] b by simp
  qed (rule P0)
  then obtain t where t: "while_option ?b ?c s0 = Some t" by blast
  have Pt: "?P t"
    by (rule while_option_rule [where P = ?P, OF _ t P0]) (use step in blast)
  have L: "bfs_loop_inv ?N m0 cid ?E S0 t" and a: "area t = head t"
    and tc: "touchesCenter t \<longleftrightarrow> (\<exists>k<head t. in_center w h (queue t ! k))"
    using Pt by simp_all
  have inv: "bfs_inv ?N m0 cid t" using L by (simp add: bfs_loop_inv_def)
  have "\<not> ?b t" by (rule while_option_stop [OF t])
  moreover have "head t \<le> tail t" using inv by (simp add: bfs_inv_def)
  ultimately have ht: "head t = tail t" by simp
  have q: "queued t = ?E\<^sup>* `` S0" by (rule bfs_loop_done [OF L ht])
  have len: "length (queue t) = ?N" and tl: "tail t \<le> ?N"
    and d: "distinct (take (tail t) (queue t))"
    using inv by (simp_all add: bfs_inv_def)
  have "card (queued t) = tail t"
    unfolding queued_def using d tl len by (simp add: distinct_card)
  then have ar: "area t = card (queued t)" using a ht by simp
  have "touchesCenter t \<longleftrightarrow> (\<exists>n\<in>queued t. in_center w h n)"
    unfolding tc ht using queued_nth [of t] tl len by auto
  then show ?thesis using t inv q ar by blast
qed

lemma adj4_sym: "adj4 w h i j \<longleftrightarrow> adj4 w h j i"
  unfolding adj4_def by (intro iffI; elim conjE disjE; simp)

lemma fg_adj_sym: "sym (fg_adj msk w h)"
  unfolding sym_def fg_adj_def by (auto dest: adj4_sym [THEN iffD1])

lemma component_of_self: "i \<in> component_of msk w h i"
  by (simp add: component_of_def)

lemma component_of_eq:
  assumes "j \<in> component_of msk w h i"
  shows "component_of msk w h j = component_of msk w h i"
proof -
  let ?r = "fg_adj msk w h"
  have ij: "(i, j) \<in> ?r\<^sup>*" using assms by (simp add: component_of_def)
  have "sym (?r\<^sup>*)" by (rule sym_rtrancl [OF fg_adj_sym])
  then have ji: "(j, i) \<in> ?r\<^sup>*" using ij by (simp add: sym_def)
  have "(j, n) \<in> ?r\<^sup>* \<longleftrightarrow> (i, n) \<in> ?r\<^sup>*" for n
    using rtrancl_trans [OF ij, of n] rtrancl_trans [OF ji, of n] by blast
  then show ?thesis
    unfolding component_of_def by (simp add: Image_singleton)
qed

lemma component_of_fg:
  assumes "i < w * h" and "msk ! i \<noteq> 0" and "j \<in> component_of msk w h i"
  shows "j < w * h \<and> msk ! j \<noteq> 0"
proof -
  have "(i, j) \<in> (fg_adj msk w h)\<^sup>*" using assms(3) by (simp add: component_of_def)
  then show ?thesis
  proof (induction rule: rtrancl_induct)
    case base
    then show ?case using assms by simp
  next
    case (step y z)
    have "adj4 w h y z" "msk ! z \<noteq> 0" using step.hyps(2) by (simp_all add: fg_adj_def)
    then show ?case by (simp add: adj4_def)
  qed
qed

lemma comp_reach:
  assumes len: "length msk = w * h" and i: "i < w * h" "msk ! i \<noteq> 0" "m0 ! i = 0"
    and closed: "\<And>p n. (p, n) \<in> fg_adj msk w h \<Longrightarrow> m0 ! n \<noteq> 0 \<Longrightarrow> m0 ! p \<noteq> 0"
  shows "(bfs_edges w h (\<lambda>p n. truthyU msk n \<and> n < w * h) m0)\<^sup>* `` {i} = component_of msk w h i"
proof -
  let ?E = "bfs_edges w h (\<lambda>p n. truthyU msk n \<and> n < w * h) m0"
  let ?A = "fg_adj msk w h"
  have a: "(i, n) \<in> ?A\<^sup>* \<and> n < w * h \<and> msk ! n \<noteq> 0" if "(i, n) \<in> ?E\<^sup>*" for n
    using that
  proof (induction rule: rtrancl_induct)
    case base
    then show ?case using i by simp
  next
    case (step y z)
    have e: "nbr4 w h y z" "truthyU msk z" "z < w * h"
      using step.hyps(2) by (simp_all add: bfs_edges_def)
    have y: "y < w * h" "msk ! y \<noteq> 0" "(i, y) \<in> ?A\<^sup>*" using step.IH by simp_all
    have "adj4 w h y z" using e(1) nbr4_adj4 [OF y(1)] by simp
    moreover have "msk ! z \<noteq> 0" using e(2) by (simp add: truthyU_def)
    ultimately have "(y, z) \<in> ?A" using y(2) by (simp add: fg_adj_def)
    then show ?case using y(3) e(3) \<open>msk ! z \<noteq> 0\<close> by (auto intro: rtrancl_into_rtrancl)
  qed
  have b: "(i, n) \<in> ?E\<^sup>* \<and> m0 ! n = 0" if "(i, n) \<in> ?A\<^sup>*" for n
    using that
  proof (induction rule: rtrancl_induct)
    case base
    then show ?case using i by simp
  next
    case (step y z)
    have e: "adj4 w h y z" "msk ! z \<noteq> 0" using step.hyps(2) by (simp_all add: fg_adj_def)
    have y: "(i, y) \<in> ?E\<^sup>*" "m0 ! y = 0" using step.IH by simp_all
    have yz: "y < w * h" "z < w * h" using e(1) by (simp_all add: adj4_def)
    have nb: "nbr4 w h y z" using e(1) nbr4_adj4 [OF yz(1)] by simp
    have z0: "m0 ! z = 0" using closed [OF step.hyps(2)] y(2) by auto
    have "truthyU msk z" using e(2) yz(2) len by (simp add: truthyU_def)
    then have "(y, z) \<in> ?E" using nb z0 yz(2) by (simp add: bfs_edges_def)
    then show ?case using y(1) z0 by (auto intro: rtrancl_into_rtrancl)
  qed
  have "(i, n) \<in> ?E\<^sup>* \<longleftrightarrow> (i, n) \<in> ?A\<^sup>*" for n
    using a [of n] b [of n] by blast
  then show ?thesis unfolding component_of_def by (simp add: Image_singleton)
qed

lemma label_invD:
  assumes "label_inv msk w h k c"
  shows "length (labels c) = w * h" and "length (label_queue c) = w * h"
    and "\<And>j. j < w * h \<Longrightarrow> labels c ! j \<noteq> 0 \<Longrightarrow> msk ! j \<noteq> 0 \<and> labels c ! j \<le> componentId c"
    and "\<And>j. j < k \<Longrightarrow> msk ! j \<noteq> 0 \<Longrightarrow> labels c ! j \<noteq> 0"
    and "\<And>j. j < w * h \<Longrightarrow> labels c ! j \<noteq> 0 \<Longrightarrow>
           label_class (labels c) (w * h) (labels c ! j) = component_of msk w h j"
    and "\<And>a. 1 \<le> a \<Longrightarrow> a \<le> componentId c \<Longrightarrow>
           (\<exists>j<k. j \<in> label_class (labels c) (w * h) a) \<and>
           componentAreas c a = Some (card (label_class (labels c) (w * h) a)) \<and>
           componentTouchesCenter c a =
             Some (\<exists>j\<in>label_class (labels c) (w * h) a. in_center w h j)"
    and "\<And>a b. 1 \<le> a \<Longrightarrow> a < b \<Longrightarrow> b \<le> componentId c \<Longrightarrow>
           (\<exists>s\<in>label_class (labels c) (w * h) a. \<forall>j\<in>label_class (labels c) (w * h) b. s < j)"
proof -
  note A = assms [unfolded label_inv_def]
  show "length (labels c) = w * h" using A by (elim conjE)
  show "length (label_queue c) = w * h" using A by (elim conjE)
  show "msk ! j \<noteq> 0 \<and> labels c ! j \<le> componentId c" if "j < w * h" "labels c ! j \<noteq> 0" for j
  proof -
    have "\<forall>j<w * h. labels c ! j \<noteq> 0 \<longrightarrow> msk ! j \<noteq> 0 \<and> labels c ! j \<le> componentId c"
      using A by (elim conjE)
    then show ?thesis using that by simp
  qed
  show "labels c ! j \<noteq> 0" if "j < k" "msk ! j \<noteq> 0" for j
  proof -
    have "\<forall>j<k. msk ! j \<noteq> 0 \<longrightarrow> labels c ! j \<noteq> 0" using A by (elim conjE)
    then show ?thesis using that by simp
  qed
  show "label_class (labels c) (w * h) (labels c ! j) = component_of msk w h j"
    if "j < w * h" "labels c ! j \<noteq> 0" for j
  proof -
    have "\<forall>j<w * h. labels c ! j \<noteq> 0 \<longrightarrow>
            label_class (labels c) (w * h) (labels c ! j) = component_of msk w h j"
      using A by (elim conjE)
    then show ?thesis using that by simp
  qed
  show "(\<exists>j<k. j \<in> label_class (labels c) (w * h) a) \<and>
        componentAreas c a = Some (card (label_class (labels c) (w * h) a)) \<and>
        componentTouchesCenter c a = Some (\<exists>j\<in>label_class (labels c) (w * h) a. in_center w h j)"
    if "1 \<le> a" "a \<le> componentId c" for a
  proof -
    have "\<forall>a. 1 \<le> a \<and> a \<le> componentId c \<longrightarrow>
        (\<exists>j<k. j \<in> label_class (labels c) (w * h) a) \<and>
        componentAreas c a = Some (card (label_class (labels c) (w * h) a)) \<and>
        componentTouchesCenter c a =
          Some (\<exists>j\<in>label_class (labels c) (w * h) a. in_center w h j)"
      using A by (elim conjE)
    then show ?thesis using that by blast
  qed
  show "\<exists>s\<in>label_class (labels c) (w * h) a. \<forall>j\<in>label_class (labels c) (w * h) b. s < j"
    if "1 \<le> a" "a < b" "b \<le> componentId c" for a b
  proof -
    have "\<forall>a b. 1 \<le> a \<and> a < b \<and> b \<le> componentId c \<longrightarrow>
        (\<exists>s\<in>label_class (labels c) (w * h) a. \<forall>j\<in>label_class (labels c) (w * h) b. s < j)"
      using A by (elim conjE)
    then show ?thesis using that by blast
  qed
qed

lemma label_invI:
  assumes "length (labels c) = w * h" and "length (label_queue c) = w * h"
    and "\<forall>j<w * h. labels c ! j \<noteq> 0 \<longrightarrow> msk ! j \<noteq> 0 \<and> labels c ! j \<le> componentId c"
    and "\<forall>j<k. msk ! j \<noteq> 0 \<longrightarrow> labels c ! j \<noteq> 0"
    and "\<forall>j<w * h. labels c ! j \<noteq> 0 \<longrightarrow>
           label_class (labels c) (w * h) (labels c ! j) = component_of msk w h j"
    and "\<forall>a. 1 \<le> a \<and> a \<le> componentId c \<longrightarrow>
           (\<exists>j<k. j \<in> label_class (labels c) (w * h) a) \<and>
           componentAreas c a = Some (card (label_class (labels c) (w * h) a)) \<and>
           componentTouchesCenter c a =
             Some (\<exists>j\<in>label_class (labels c) (w * h) a. in_center w h j)"
    and "\<forall>a b. 1 \<le> a \<and> a < b \<and> b \<le> componentId c \<longrightarrow>
           (\<exists>s\<in>label_class (labels c) (w * h) a. \<forall>j\<in>label_class (labels c) (w * h) b. s < j)"
  shows "label_inv msk w h k c"
  unfolding label_inv_def by (intro conjI assms)

lemma label_component_skip:
  assumes inv: "label_inv msk w h k c" and k: "k < w * h" and len: "length msk = w * h"
    and skip: "\<not> truthyU msk k \<or> rdN (labels c) k \<noteq> Some 0"
  shows "label_component msk w h k c = Some c \<and> label_inv msk w h (k + 1) c"
proof -
  note D = label_invD [OF inv]
  have "msk ! k \<noteq> 0 \<longrightarrow> labels c ! k \<noteq> 0"
    using skip k D(1) len by (auto simp: truthyU_def rdN_def)
  then have d': "\<forall>j<k + 1. msk ! j \<noteq> 0 \<longrightarrow> labels c ! j \<noteq> 0"
    using D(4) by (auto simp: less_Suc_eq)
  have "label_inv msk w h (k + 1) c"
  proof (rule label_invI)
    show "\<forall>a. 1 \<le> a \<and> a \<le> componentId c \<longrightarrow>
           (\<exists>j<k + 1. j \<in> label_class (labels c) (w * h) a) \<and>
           componentAreas c a = Some (card (label_class (labels c) (w * h) a)) \<and>
           componentTouchesCenter c a =
             Some (\<exists>j\<in>label_class (labels c) (w * h) a. in_center w h j)"
    proof (intro allI impI)
      fix a assume a: "1 \<le> a \<and> a \<le> componentId c"
      then have a': "1 \<le> a" "a \<le> componentId c" by simp_all
      obtain j where "j < k" "j \<in> label_class (labels c) (w * h) a"
        using D(6) [OF a'] by blast
      then have "\<exists>j<k + 1. j \<in> label_class (labels c) (w * h) a"
        by (intro exI [of _ j]) simp
      then show "(\<exists>j<k + 1. j \<in> label_class (labels c) (w * h) a) \<and>
           componentAreas c a = Some (card (label_class (labels c) (w * h) a)) \<and>
           componentTouchesCenter c a =
             Some (\<exists>j\<in>label_class (labels c) (w * h) a. in_center w h j)"
        using D(6) [OF a'] by simp
    qed
  qed (use D d' in simp_all)
  moreover have "label_component msk w h k c = Some c"
    using skip by (simp add: label_component_def)
  ultimately show ?thesis by simp
qed

lemma relabel_class:
  assumes vis: "\<And>i. i < N \<Longrightarrow> ls ! i = (if i \<in> C then cid else m0 ! i)"
    and Cz: "\<And>i. i \<in> C \<Longrightarrow> i < N \<and> m0 ! i = 0"
    and old: "\<And>j. j < N \<Longrightarrow> m0 ! j < cid"
  shows "label_class ls N cid = C"
    and "a \<noteq> cid \<Longrightarrow> a \<noteq> 0 \<Longrightarrow> label_class ls N a = label_class m0 N a"
proof -
  show "label_class ls N cid = C"
  proof (rule set_eqI)
    fix j
    show "j \<in> label_class ls N cid \<longleftrightarrow> j \<in> C"
    proof (cases "j \<in> C")
      case True
      then show ?thesis using vis [of j] Cz [of j] by (simp add: label_class_def)
    next
      case False
      then show ?thesis using vis [of j] old [of j] by (auto simp: label_class_def)
    qed
  qed
  show "label_class ls N a = label_class m0 N a" if a: "a \<noteq> cid" "a \<noteq> 0"
  proof (rule set_eqI)
    fix j
    show "j \<in> label_class ls N a \<longleftrightarrow> j \<in> label_class m0 N a"
    proof (cases "j \<in> C")
      case True
      then show ?thesis using vis [of j] Cz [of j] a by (simp add: label_class_def)
    next
      case False
      then show ?thesis using vis [of j] by (auto simp: label_class_def)
    qed
  qed
qed

lemma label_start:
  fixes s0 :: label_state
  assumes s0: "s0 = \<lparr> visited = m0[k := cid], queue = q[0 := k],
            head = 0, tail = 1, area = 0, touchesCenter = False \<rparr>"
    and l: "length m0 = N" "length q = N" and k: "k < N" "m0 ! k = 0" and cid: "cid \<noteq> 0"
  shows "bfs_loop_inv N m0 cid E {k} s0"
proof -
  have "q \<noteq> []" using l k by auto
  then have tk: "take (Suc 0) (q[0 := k]) = [k]"
    by (cases q) simp_all
  have q0: "queued s0 = {k}" by (simp add: queued_def s0 tk)
  have N1: "Suc 0 \<le> N" using k by simp
  have "bfs_inv N m0 cid s0"
    unfolding bfs_inv_def q0 using l k cid N1
    by (simp add: s0 tk nth_list_update)
  then show ?thesis
    unfolding bfs_loop_inv_def q0 by (simp add: s0)
qed

lemma label_component_new:
  assumes inv: "label_inv msk w h k c" and k: "k < w * h" and len: "length msk = w * h"
    and new: "\<not> (\<not> truthyU msk k \<or> rdN (labels c) k \<noteq> Some 0)"
  shows "\<exists>c'. label_component msk w h k c = Some c' \<and> label_inv msk w h (k + 1) c'"
proof -
  let ?N = "w * h"
  let ?ok = "\<lambda>p n. truthyU msk n \<and> n < ?N"
  define m0 where "m0 = labels c"
  define cid where "cid = componentId c + 1"
  let ?E = "bfs_edges w h ?ok m0"
  define s0 :: label_state where
    "s0 = \<lparr> visited = m0[k := cid], queue = (label_queue c)[0 := k],
            head = 0, tail = 1, area = 0, touchesCenter = False \<rparr>"
  note D = label_invD [OF inv, folded m0_def]
  have fgk: "msk ! k \<noteq> 0" and k0: "m0 ! k = 0"
    using new k D(1) by (auto simp: truthyU_def rdN_def m0_def)
  have li0: "bfs_loop_inv ?N m0 cid ?E {k} s0"
    by (rule label_start [OF s0_def D(1,2) k k0]) (simp add: cid_def)
  have closed: "m0 ! p \<noteq> 0" if e: "(p, n) \<in> fg_adj msk w h" and n: "m0 ! n \<noteq> 0" for p n
  proof -
    have nN: "n < ?N" using e by (simp add: fg_adj_def adj4_def)
    have "(n, p) \<in> fg_adj msk w h" using e fg_adj_sym [of msk w h] by (simp add: sym_def)
    then have "p \<in> component_of msk w h n" by (simp add: component_of_def r_into_rtrancl)
    then have "p \<in> label_class m0 ?N (m0 ! n)" using D(5) [OF nN n] by simp
    then show ?thesis using n by (simp add: label_class_def)
  qed
  define C where "C = component_of msk w h k"
  have reach: "?E\<^sup>* `` {k} = C"
    unfolding C_def by (rule comp_reach [OF len k fgk k0 closed])
  have "\<exists>s'. while_option (\<lambda>s. head s < tail s) (label_step msk w h cid) s0 = Some s' \<and>
           bfs_inv ?N m0 cid s' \<and> queued s' = ?E\<^sup>* `` {k} \<and> area s' = card (queued s') \<and>
           (touchesCenter s' \<longleftrightarrow> (\<exists>n\<in>queued s'. in_center w h n))"
    by (rule label_loop [OF li0]) (simp_all add: s0_def)
  then obtain s' where run: "while_option (\<lambda>s. head s < tail s) (label_step msk w h cid) s0 = Some s'"
    and inv': "bfs_inv ?N m0 cid s'" and q': "queued s' = C"
    and ar: "area s' = card C" and tc: "touchesCenter s' \<longleftrightarrow> (\<exists>n\<in>C. in_center w h n)"
    unfolding reach by (elim exE conjE) simp
  define c' where "c' = \<lparr> labels = visited s', label_queue = queue s', componentId = cid,
       componentAreas = (componentAreas c)(cid \<mapsto> area s'),
       componentTouchesCenter = (componentTouchesCenter c)(cid \<mapsto> touchesCenter s') \<rparr>"
  have res: "label_component msk w h k c = Some c'"
    using new run unfolding label_component_def Let_def c'_def cid_def m0_def s0_def by simp
  define ls where "ls = visited s'"
  have l': "length ls = ?N" "length (queue s') = ?N"
    using inv' unfolding bfs_inv_def ls_def by simp_all
  have Cz: "i < ?N \<and> m0 ! i = 0" if "i \<in> C" for i
    using inv' that unfolding bfs_inv_def q' by simp
  have vis: "ls ! i = (if i \<in> C then cid else m0 ! i)" if "i < ?N" for i
    using inv' that unfolding bfs_inv_def q' ls_def by simp
  have kC: "k \<in> C" by (simp add: C_def component_of_self)
  have Cfg: "msk ! j \<noteq> 0" if "j \<in> C" for j
    using component_of_fg [OF k fgk] that by (simp add: C_def)
  have Cge: "k \<le> j" if "j \<in> C" for j
  proof (rule ccontr)
    assume "\<not> k \<le> j"
    then have "m0 ! j \<noteq> 0" using D(4) [of j] Cfg [OF that] by simp
    then show False using Cz [OF that] by simp
  qed
  have old_lt: "m0 ! j < cid" if "j < ?N" for j
    using D(3) [OF that] by (cases "m0 ! j = 0") (simp_all add: cid_def)
  have R: "label_class ls ?N cid = C"
    "\<And>a. a \<noteq> cid \<Longrightarrow> a \<noteq> 0 \<Longrightarrow> label_class ls ?N a = label_class m0 ?N a"
  proof -
    show "label_class ls ?N cid = C"
      by (rule relabel_class(1) [where ?m0.0 = m0]) (simp_all add: vis Cz old_lt)
    show "label_class ls ?N a = label_class m0 ?N a" if "a \<noteq> cid" "a \<noteq> 0" for a
      by (rule relabel_class(2) [where C = C and cid = cid]) (simp_all add: vis Cz old_lt that)
  qed
  have i3: "\<forall>j<?N. ls ! j \<noteq> 0 \<longrightarrow> msk ! j \<noteq> 0 \<and> ls ! j \<le> cid"
  proof (intro allI impI)
    fix j assume j: "j < ?N" "ls ! j \<noteq> 0"
    show "msk ! j \<noteq> 0 \<and> ls ! j \<le> cid"
    proof (cases "j \<in> C")
      case True
      then show ?thesis using vis [OF j(1)] Cfg by simp
    next
      case False
      then have "ls ! j = m0 ! j" using vis [OF j(1)] by simp
      then show ?thesis using D(3) [OF j(1)] j(2) by (simp add: cid_def)
    qed
  qed
  have i4: "\<forall>j<k + 1. msk ! j \<noteq> 0 \<longrightarrow> ls ! j \<noteq> 0"
  proof (intro allI impI)
    fix j assume j: "j < k + 1" "msk ! j \<noteq> 0"
    show "ls ! j \<noteq> 0"
    proof (cases "j = k")
      case True
      then show ?thesis using vis [OF k] kC by (simp add: cid_def)
    next
      case False
      then have jk: "j < k" using j by simp
      then have jN: "j < ?N" using k by simp
      show ?thesis using vis [OF jN] D(4) [OF jk j(2)] by (simp add: cid_def)
    qed
  qed
  have i5: "\<forall>j<?N. ls ! j \<noteq> 0 \<longrightarrow> label_class ls ?N (ls ! j) = component_of msk w h j"
  proof (intro allI impI)
    fix j assume j: "j < ?N" "ls ! j \<noteq> 0"
    show "label_class ls ?N (ls ! j) = component_of msk w h j"
    proof (cases "j \<in> C")
      case True
      then have "ls ! j = cid" using vis [OF j(1)] by simp
      moreover have "component_of msk w h j = C"
        using component_of_eq [of j msk w h k] True by (simp add: C_def)
      ultimately show ?thesis using R(1) by simp
    next
      case False
      then have e: "ls ! j = m0 ! j" using vis [OF j(1)] by simp
      then have ne: "m0 ! j \<noteq> cid" "m0 ! j \<noteq> 0" using j old_lt [OF j(1)] by simp_all
      show ?thesis unfolding e R(2) [OF ne] by (rule D(5) [OF j(1) ne(2)])
    qed
  qed
  have i6: "\<forall>a. 1 \<le> a \<and> a \<le> cid \<longrightarrow>
        (\<exists>j<k + 1. j \<in> label_class ls ?N a) \<and>
        componentAreas c' a = Some (card (label_class ls ?N a)) \<and>
        componentTouchesCenter c' a = Some (\<exists>j\<in>label_class ls ?N a. in_center w h j)"
  proof (intro allI impI)
    fix a assume "1 \<le> a \<and> a \<le> cid"
    then have a: "1 \<le> a" "a \<le> cid" by simp_all
    show "(\<exists>j<k + 1. j \<in> label_class ls ?N a) \<and>
        componentAreas c' a = Some (card (label_class ls ?N a)) \<and>
        componentTouchesCenter c' a = Some (\<exists>j\<in>label_class ls ?N a. in_center w h j)"
    proof (cases "a = cid")
      case True
      have "\<exists>j<k + 1. j \<in> C" using kC by (intro exI [of _ k]) simp
      then show ?thesis unfolding True R(1) using ar tc by (simp add: c'_def)
    next
      case False
      then have a': "a \<le> componentId c" "a \<noteq> 0" using a by (simp_all add: cid_def)
      obtain j where "j < k" "j \<in> label_class m0 ?N a"
        using D(6) [OF a(1) a'(1)] by blast
      then have "\<exists>j<k + 1. j \<in> label_class m0 ?N a"
        by (intro exI [of _ j]) simp
      then show ?thesis
        unfolding R(2) [OF False a'(2)] using D(6) [OF a(1) a'(1)] False by (simp add: c'_def)
    qed
  qed
  have i7: "\<forall>a b. 1 \<le> a \<and> a < b \<and> b \<le> cid \<longrightarrow>
        (\<exists>s\<in>label_class ls ?N a. \<forall>j\<in>label_class ls ?N b. s < j)"
  proof (intro allI impI)
    fix a b assume "1 \<le> a \<and> a < b \<and> b \<le> cid"
    then have ab: "1 \<le> a" "a < b" "b \<le> cid" by simp_all
    show "\<exists>s\<in>label_class ls ?N a. \<forall>j\<in>label_class ls ?N b. s < j"
    proof (cases "b = cid")
      case True
      have a': "a \<le> componentId c" "a \<noteq> cid" "a \<noteq> 0" using ab True by (simp_all add: cid_def)
      obtain s where s: "s < k" "s \<in> label_class m0 ?N a"
        using D(6) [OF ab(1) a'(1)] by blast
      have "\<forall>j\<in>C. s < j"
      proof
        fix j assume "j \<in> C"
        then show "s < j" using Cge [of j] s(1) by simp
      qed
      then show ?thesis unfolding True R(1) R(2) [OF a'(2,3)] using s(2) by blast
    next
      case False
      then have b': "b \<le> componentId c" "b \<noteq> 0" and a': "a \<noteq> cid" "a \<noteq> 0"
        using ab by (simp_all add: cid_def)
      show ?thesis
        unfolding R(2) [OF False b'(2)] R(2) [OF a']
        by (rule D(7) [OF ab(1,2) b'(1)])
    qed
  qed
  have "label_inv msk w h (k + 1) c'"
  proof (rule label_invI)
    show "length (labels c') = ?N" using l' by (simp add: c'_def ls_def)
    show "length (label_queue c') = ?N" using l' by (simp add: c'_def)
    show "\<forall>j<?N. labels c' ! j \<noteq> 0 \<longrightarrow> msk ! j \<noteq> 0 \<and> labels c' ! j \<le> componentId c'"
      using i3 by (simp add: c'_def ls_def)
    show "\<forall>j<k + 1. msk ! j \<noteq> 0 \<longrightarrow> labels c' ! j \<noteq> 0"
      using i4 by (simp add: c'_def ls_def)
    show "\<forall>j<?N. labels c' ! j \<noteq> 0 \<longrightarrow>
           label_class (labels c') ?N (labels c' ! j) = component_of msk w h j"
      using i5 by (simp add: c'_def ls_def)
    have e: "labels c' = ls" "componentId c' = cid" by (simp_all add: c'_def ls_def)
    show "\<forall>a. 1 \<le> a \<and> a \<le> componentId c' \<longrightarrow>
           (\<exists>j<k + 1. j \<in> label_class (labels c') ?N a) \<and>
           componentAreas c' a = Some (card (label_class (labels c') ?N a)) \<and>
           componentTouchesCenter c' a =
             Some (\<exists>j\<in>label_class (labels c') ?N a. in_center w h j)"
      unfolding e by (rule i6)
    show "\<forall>a b. 1 \<le> a \<and> a < b \<and> b \<le> componentId c' \<longrightarrow>
           (\<exists>s\<in>label_class (labels c') ?N a. \<forall>j\<in>label_class (labels c') ?N b. s < j)"
      unfolding e by (rule i7)
  qed
  then show ?thesis using res by simp
qed

lemma label_component_inv:
  assumes "label_inv msk w h k c" and "k < w * h" and "length msk = w * h"
  shows "\<exists>c'. label_component msk w h k c = Some c' \<and> label_inv msk w h (k + 1) c'"
proof (cases "\<not> truthyU msk k \<or> rdN (labels c) k \<noteq> Some 0")
  case True
  then show ?thesis using label_component_skip [OF assms] by simp
next
  case False
  then show ?thesis by (rule label_component_new [OF assms])
qed

lemma label_inv_init:
  "label_inv msk w h 0
     \<lparr> labels = replicate (w * h) 0, label_queue = replicate (w * h) 0, componentId = 0,
       componentAreas = [0 \<mapsto> 0], componentTouchesCenter = [0 \<mapsto> False] \<rparr>"
  by (rule label_invI) simp_all

lemma label_components_inv:
  assumes len: "length msk = w * h"
  shows "\<exists>c. label_components msk w h = Some c \<and> label_inv msk w h (w * h) c"
proof -
  let ?f = "\<lambda>i c. Option.bind c (label_component msk w h i)"
  define c0 where "c0 = \<lparr> labels = replicate (w * h) 0, label_queue = replicate (w * h) 0,
       componentId = 0, componentAreas = [0 \<mapsto> 0], componentTouchesCenter = [0 \<mapsto> False] \<rparr>"
  have i0: "label_inv msk w h 0 c0" unfolding c0_def by (rule label_inv_init)
  have "k \<le> w * h \<Longrightarrow> \<exists>c. fold ?f [0..<k] (Some c0) = Some c \<and> label_inv msk w h k c" for k
  proof (induction k)
    case 0
    show ?case using i0 by simp
  next
    case (Suc k)
    have k: "k < w * h" using Suc.prems by simp
    then have "k \<le> w * h" by simp
    from Suc.IH [OF this] obtain c
      where c: "fold ?f [0..<k] (Some c0) = Some c" "label_inv msk w h k c"
      by blast
    obtain c' where "label_component msk w h k c = Some c'" "label_inv msk w h (k + 1) c'"
      using label_component_inv [OF c(2) k len] by blast
    then show ?case using c(1) by simp
  qed
  from this [of "w * h"] show ?thesis
    unfolding label_components_def Let_def c0_def by simp
qed

lemma best_fold:
  fixes f :: "nat \<Rightarrow> real"
  assumes sc: "\<And>a. 1 \<le> a \<Longrightarrow> a \<le> M \<Longrightarrow> sc a = Some (f a) \<and> 0 \<le> f a"
    and M: "1 \<le> M"
  shows "\<exists>b. fold (\<lambda>ident (bestId, bestScore).
             let score = sc ident
             in if jgt score bestScore then (ident, score) else (bestId, bestScore))
           [1..<M + 1] (1, Some (- 1)) = (b, Some (f b)) \<and> 1 \<le> b \<and> b \<le> M \<and>
         (\<forall>a. 1 \<le> a \<and> a \<le> M \<longrightarrow> f a \<le> f b \<and> (f a = f b \<longrightarrow> b \<le> a))"
  using M sc
proof (induction M rule: nat_induct_at_least)
  case base
  have "sc 1 = Some (f 1)" "0 \<le> f 1" using base [of 1] by simp_all
  then show ?case
    by (intro exI [of _ 1]) (auto simp: jgt_def le_Suc_eq)
next
  case (Suc M)
  let ?g = "\<lambda>ident (bestId, bestScore).
             let score = sc ident
             in if jgt score bestScore then (ident, score) else (bestId, bestScore)"
  obtain b where b: "fold ?g [1..<M + 1] (1, Some (- 1)) = (b, Some (f b))" "1 \<le> b" "b \<le> M"
    and mx: "\<And>a. 1 \<le> a \<Longrightarrow> a \<le> M \<Longrightarrow> f a \<le> f b \<and> (f a = f b \<longrightarrow> b \<le> a)"
  proof -
    have "sc a = Some (f a) \<and> 0 \<le> f a" if "1 \<le> a" "a \<le> M" for a
      using Suc.prems [of a] that by simp
    from Suc.IH [OF this] show ?thesis using that by blast
  qed
  have s: "sc (Suc M) = Some (f (Suc M))" using Suc.prems [of "Suc M"] by simp
  have unf: "fold ?g [1..<Suc M + 1] (1, Some (- 1)) = ?g (Suc M) (b, Some (f b))"
    using b(1) Suc.hyps by simp
  show ?case
  proof (cases "f (Suc M) > f b")
    case True
    have "fold ?g [1..<Suc M + 1] (1, Some (- 1)) = (Suc M, Some (f (Suc M)))"
      unfolding unf using True by (simp add: s jgt_def)
    moreover have "f a \<le> f (Suc M) \<and> (f a = f (Suc M) \<longrightarrow> Suc M \<le> a)"
      if "1 \<le> a" "a \<le> Suc M" for a
    proof (cases "a = Suc M")
      case True then show ?thesis by simp
    next
      case False
      then have "a \<le> M" using that by simp
      then show ?thesis using mx [OF that(1)] True by auto
    qed
    moreover have "1 \<le> Suc M" "Suc M \<le> Suc M" by simp_all
    ultimately show ?thesis by blast
  next
    case False
    have "fold ?g [1..<Suc M + 1] (1, Some (- 1)) = (b, Some (f b))"
      unfolding unf using False by (simp add: s jgt_def)
    moreover have "f a \<le> f b \<and> (f a = f b \<longrightarrow> b \<le> a)" if "1 \<le> a" "a \<le> Suc M" for a
    proof (cases "a = Suc M")
      case True then show ?thesis using False b(3) by auto
    next
      case F: False
      then have "a \<le> M" using that by simp
      then show ?thesis using mx [OF that(1)] by simp
    qed
    moreover have "1 \<le> b" "b \<le> Suc M" using b(2,3) by simp_all
    ultimately show ?thesis by blast
  qed
qed

lemma keep_fold:
  "length (fold (\<lambda>ident keep. if ident = b then keep else if P ident then keep[ident := 1] else keep)
             ids (keep0::nat list)) = length keep0 \<and>
   (\<forall>a<length keep0.
      fold (\<lambda>ident keep. if ident = b then keep else if P ident then keep[ident := 1] else keep)
        ids keep0 ! a = (if a \<in> set ids \<and> a \<noteq> b \<and> P a then 1 else keep0 ! a))"
proof (induction ids arbitrary: keep0)
  case Nil
  show ?case by simp
next
  case (Cons x xs)
  let ?k1 = "if x = b then keep0 else if P x then keep0[x := 1] else keep0"
  have l: "length ?k1 = length keep0" by simp
  have n: "?k1 ! a = (if a = x \<and> a \<noteq> b \<and> P a then 1 else keep0 ! a)" if "a < length keep0" for a
    using that by (auto simp: nth_list_update)
  let ?g = "\<lambda>ident keep. if ident = b then keep else if P ident then keep[ident := 1] else keep"
  have e: "fold ?g (x # xs) keep0 = fold ?g xs ?k1" by simp
  have IH1: "length (fold ?g xs ?k1) = length keep0"
    using Cons.IH [of ?k1] l by simp
  have IH2: "fold ?g xs ?k1 ! a = (if a \<in> set xs \<and> a \<noteq> b \<and> P a then 1 else ?k1 ! a)"
    if "a < length keep0" for a
    using Cons.IH [of ?k1] that l by simp
  have "fold ?g xs ?k1 ! a = (if a \<in> set (x # xs) \<and> a \<noteq> b \<and> P a then 1 else keep0 ! a)"
    if "a < length keep0" for a
    unfolding IH2 [OF that] n [OF that] by auto
  then show ?case unfolding e using IH1 by blast
qed

lemma labelled_single:
  assumes inv: "label_inv msk w h (w * h) c" and one: "single_component msk w h"
  shows "componentId c \<le> 1"
proof (rule ccontr)
  assume "\<not> componentId c \<le> 1"
  then have M: "2 \<le> componentId c" by simp
  note D = label_invD [OF inv]
  obtain j1 where j1: "j1 \<in> label_class (labels c) (w * h) 1" using D(6) [of 1] M by auto
  obtain j2 where j2: "j2 \<in> label_class (labels c) (w * h) 2" using D(6) [of 2] M by auto
  have a1: "j1 < w * h" "labels c ! j1 = 1" using j1 by (simp_all add: label_class_def)
  have a2: "j2 < w * h" "labels c ! j2 = 2" using j2 by (simp_all add: label_class_def)
  have "msk ! j1 \<noteq> 0" "msk ! j2 \<noteq> 0" using D(3) [OF a1(1)] D(3) [OF a2(1)] a1 a2 by simp_all
  then have "j2 \<in> component_of msk w h j1"
    using one a1(1) a2(1) unfolding single_component_def by blast
  then have "j2 \<in> label_class (labels c) (w * h) (labels c ! j1)"
    using D(5) [OF a1(1)] a1(2) by simp
  then show False using a1(2) a2(2) by (simp add: label_class_def)
qed

lemma labelled_range:
  assumes inv: "label_inv msk w h (w * h) c" and j: "j < w * h" "msk ! j \<noteq> 0"
  shows "1 \<le> labels c ! j" and "labels c ! j \<le> componentId c" and "labels c ! j \<noteq> 0"
    and "label_class (labels c) (w * h) (labels c ! j) = component_of msk w h j"
proof -
  note D = label_invD [OF inv]
  show nz: "labels c ! j \<noteq> 0" by (rule D(4) [OF j])
  then show "1 \<le> labels c ! j" by simp
  show "labels c ! j \<le> componentId c" using D(3) [OF j(1) nz] by simp
  show "label_class (labels c) (w * h) (labels c ! j) = component_of msk w h j"
    by (rule D(5) [OF j(1) nz])
qed

lemma labelled_multi:
  assumes inv: "label_inv msk w h (w * h) c" and many: "\<not> single_component msk w h"
  shows "2 \<le> componentId c"
proof -
  obtain i j where i: "i < w * h" "msk ! i \<noteq> 0" and j: "j < w * h" "msk ! j \<noteq> 0"
    and ij: "i \<notin> component_of msk w h j"
    using many unfolding single_component_def by blast
  note I = labelled_range [OF inv i]
  note J = labelled_range [OF inv j]
  have "labels c ! i \<noteq> labels c ! j"
  proof
    assume "labels c ! i = labels c ! j"
    then have "i \<in> label_class (labels c) (w * h) (labels c ! j)"
      using i(1) by (simp add: label_class_def)
    then show False using ij J(4) by simp
  qed
  then show ?thesis using I(1,2) J(1,2) by linarith
qed

lemma component_score_class:
  assumes inv: "label_inv msk w h (w * h) c" and a: "1 \<le> a" "a \<le> componentId c"
  shows "component_score c (w * h) a = Some (class_score w h (labels c) a) \<and>
         0 \<le> class_score w h (labels c) a"
proof -
  note D = label_invD(6) [OF inv a]
  have "component_score c (w * h) a = Some (class_score w h (labels c) a)"
    using D by (simp add: component_score_def class_score_def to_num_def jadd_def)
  moreover have "0 \<le> class_score w h (labels c) a" by (simp add: class_score_def)
  ultimately show ?thesis by simp
qed

lemma comp_class:
  assumes inv: "label_inv msk w h (w * h) c" and j: "j < w * h" "msk ! j \<noteq> 0"
  shows "comp_area msk w h j = card (label_class (labels c) (w * h) (labels c ! j))"
    and "comp_touches msk w h j \<longleftrightarrow>
           (\<exists>p\<in>label_class (labels c) (w * h) (labels c ! j). in_center w h p)"
    and "comp_score msk w h j = class_score w h (labels c) (labels c ! j)"
  unfolding comp_area_def comp_touches_def comp_score_def class_score_def
    labelled_range(4) [OF inv j] by simp_all

lemma result_fold:
  assumes "length ls = N"
  shows "length (fold (\<lambda>i result.
                         case rdN ls i of
                           None \<Rightarrow> result[i := 0]
                         | Some ident \<Rightarrow> result[i := g ident])
                   [0..<N] (replicate N (0::nat))) = N"
    and "i < N \<Longrightarrow> fold (\<lambda>i result.
                         case rdN ls i of
                           None \<Rightarrow> result[i := 0]
                         | Some ident \<Rightarrow> result[i := g ident])
                   [0..<N] (replicate N (0::nat)) ! i = g (ls ! i)"
proof -
  let ?F = "\<lambda>i result. case rdN ls i of None \<Rightarrow> result[i := 0] | Some ident \<Rightarrow> result[i := g ident]"
  let ?v = "\<lambda>i. case rdN ls i of None \<Rightarrow> 0 | Some ident \<Rightarrow> g ident"
  have e: "?F = (\<lambda>i result. result[(\<lambda>i. i) i := ?v i])"
    by (auto simp: fun_eq_iff split: option.splits)
  show "length (fold ?F [0..<N] (replicate N (0::nat))) = N"
    unfolding e by (simp add: fold_update_length)
  show "fold ?F [0..<N] (replicate N (0::nat)) ! i = g (ls ! i)" if "i < N"
  proof -
    have "fold (\<lambda>p r. r[(\<lambda>i. i) p := ?v p]) [0..<N] (replicate N (0::nat)) ! (\<lambda>i. i) i = ?v i"
      by (rule fold_update_nth) (use that in simp_all)
    then show ?thesis unfolding e using that assms by (simp add: rdN_def)
  qed
qed

lemma keep_flags_class:
  assumes inv: "label_inv msk w h (w * h) c"
    and b: "1 \<le> bid" "bid \<le> componentId c" and a: "1 \<le> a" "a \<le> componentId c"
  shows "truthyU (keep_flags c (w * h) bid) a \<longleftrightarrow>
         a = bid \<or>
         ((\<exists>j\<in>label_class (labels c) (w * h) a. in_center w h j) \<and>
          max (real_of_int (min_area w h))
              (real_of_int (js_round (real (card (label_class (labels c) (w * h) bid)) * 0.12)))
            \<le> real (card (label_class (labels c) (w * h) a)))"
proof -
  let ?M = "componentId c"
  define P where "P = (\<lambda>ident. componentTouchesCenter c ident = Some True \<and>
                         jge (to_num (componentAreas c ident))
                           (jmax (Some (real_of_int (max 120 (js_round (real (w * h) * 0.0018)))))
                              (jround (jmul (to_num (componentAreas c bid)) (Some 0.12)))))"
  define keep0 where "keep0 = (replicate (?M + 1) (0::nat))[bid := 1]"
  let ?g = "\<lambda>ident keep. if ident = bid then keep else if P ident then keep[ident := 1] else keep"
  have kf: "keep_flags c (w * h) bid = fold ?g [1..<?M + 1] keep0"
    unfolding keep_flags_def Let_def P_def keep0_def ..
  have l0: "length keep0 = ?M + 1" by (simp add: keep0_def del: replicate.simps)
  have n0: "keep0 ! a = (if a = bid then 1 else 0)"
    using a b by (auto simp add: keep0_def nth_list_update simp del: replicate.simps)
  have al: "a < length keep0" using a l0 by simp
  have len: "length (fold ?g [1..<?M + 1] keep0) = length keep0"
    using keep_fold [of bid P "[1..<?M + 1]" keep0] by blast
  have nth: "fold ?g [1..<?M + 1] keep0 ! a =
             (if a \<in> set [1..<?M + 1] \<and> a \<noteq> bid \<and> P a then 1 else keep0 ! a)"
    using keep_fold [of bid P "[1..<?M + 1]" keep0] al by blast
  have mem: "a \<in> set [1..<?M + 1]" using a by auto
  have t: "truthyU (keep_flags c (w * h) bid) a \<longleftrightarrow> a = bid \<or> P a"
    unfolding truthyU_def kf len nth n0 using al mem by auto
  note Da = label_invD(6) [OF inv a]
  note Db = label_invD(6) [OF inv b]
  have "P a \<longleftrightarrow>
         ((\<exists>j\<in>label_class (labels c) (w * h) a. in_center w h j) \<and>
          max (real_of_int (min_area w h))
              (real_of_int (js_round (real (card (label_class (labels c) (w * h) bid)) * 0.12)))
            \<le> real (card (label_class (labels c) (w * h) a)))"
    unfolding P_def min_area_def using Da Db
    by (simp add: to_num_def jge_def jmax_def jround_def jmul_def)
  then show ?thesis using t by simp
qed

lemma keepMain_spec:
  assumes len: "length msk = w * h"
  shows "\<exists>r. keepMainForegroundRegions msk w h = Some r \<and>
           (single_component msk w h \<longrightarrow> r = msk) \<and>
           (\<not> single_component msk w h \<longrightarrow>
              length r = w * h \<and>
              (\<exists>b. best_pixel msk w h b \<and>
                 (\<forall>i<w * h. r ! i = (if kept msk w h b i then 1 else 0))))"
proof -
  let ?N = "w * h"
  obtain c where c: "label_components msk w h = Some c" and inv: "label_inv msk w h ?N c"
    using label_components_inv [OF len] by blast
  note D = label_invD [OF inv]
  let ?L = "labels c"
  let ?M = "componentId c"
  let ?cls = "label_class ?L ?N"
  show ?thesis
  proof (cases "single_component msk w h")
    case True
    have "?M \<le> 1" by (rule labelled_single [OF inv True])
    then have "keepMainForegroundRegions msk w h = Some msk"
      by (simp add: keepMainForegroundRegions_def c)
    then show ?thesis using True by simp
  next
    case False
    have M: "2 \<le> ?M" by (rule labelled_multi [OF inv False])
    let ?f = "class_score w h ?L"
    have M1: "1 \<le> ?M" using M by simp
    obtain bid where best: "best_component c ?N = (bid, Some (?f bid))"
      and bid: "1 \<le> bid" "bid \<le> ?M"
      and mx: "\<And>a. 1 \<le> a \<Longrightarrow> a \<le> ?M \<Longrightarrow> ?f a \<le> ?f bid \<and> (?f a = ?f bid \<longrightarrow> bid \<le> a)"
      using best_fold [of ?M "component_score c ?N" ?f, OF component_score_class [OF inv] M1]
      unfolding best_component_def by blast
    define keep where "keep = keep_flags c ?N bid"
    define g where "g = (\<lambda>ident. if ident > 0 \<and> truthyU keep ident then 1 else (0::nat))"
    define r where "r = fold (\<lambda>i result.
                         case rdN ?L i of
                           None \<Rightarrow> result[i := 0]
                         | Some ident \<Rightarrow> result[i := g ident])
                   [0..<?N] (replicate ?N (0::nat))"
    have fb: "fst (best_component c ?N) = bid" by (simp add: best)
    have res: "keepMainForegroundRegions msk w h = Some r"
      using M unfolding keepMainForegroundRegions_def c r_def g_def keep_def Let_def
      by (simp add: fb cong: option.case_cong)
    have rl: "length r = ?N" unfolding r_def by (rule result_fold(1) [OF D(1)])
    have rn: "r ! i = g (?L ! i)" if "i < ?N" for i
      unfolding r_def by (rule result_fold(2) [OF D(1) that])
    have fin: "finite (?cls bid)" by (simp add: label_class_def)
    have ne: "?cls bid \<noteq> {}" using D(6) [OF bid] by blast
    define b where "b = Min (?cls bid)"
    have bin: "b \<in> ?cls bid" unfolding b_def by (rule Min_in [OF fin ne])
    then have bN: "b < ?N" and bl: "?L ! b = bid" by (simp_all add: label_class_def)
    have bfg: "msk ! b \<noteq> 0" using D(3) [OF bN] bl bid by simp
    have bcomp: "?cls bid = component_of msk w h b"
      using labelled_range(4) [OF inv bN bfg] bl by simp
    have bsc: "comp_score msk w h b = ?f bid"
      using comp_class(3) [OF inv bN bfg] bl by simp
    have bar: "comp_area msk w h b = card (?cls bid)"
      using comp_class(1) [OF inv bN bfg] bl by simp
    have bp: "best_pixel msk w h b"
      unfolding best_pixel_def
    proof (intro conjI allI impI)
      show "b < ?N" by (rule bN)
      show "msk ! b \<noteq> 0" by (rule bfg)
    next
      fix j assume j: "j < ?N" "msk ! j \<noteq> 0"
      note J = labelled_range [OF inv j]
      have sc: "comp_score msk w h j = ?f (?L ! j)" by (rule comp_class(3) [OF inv j])
      show "comp_score msk w h j \<le> comp_score msk w h b"
        unfolding sc bsc using mx [OF J(1,2)] by simp
      assume "comp_score msk w h j = comp_score msk w h b"
      then have le: "bid \<le> ?L ! j" unfolding sc bsc using mx [OF J(1,2)] by simp
      show "b \<le> j"
      proof (cases "bid = ?L ! j")
        case True
        then have "j \<in> ?cls bid" using j(1) by (simp add: label_class_def)
        then show ?thesis unfolding b_def using fin by (rule Min_le [rotated])
      next
        case False
        then have lt: "bid < ?L ! j" using le by simp
        obtain s where s: "s \<in> ?cls bid" "\<forall>p\<in>?cls (?L ! j). s < p"
          using D(7) [OF bid(1) lt J(2)] by blast
        have "j \<in> ?cls (?L ! j)" using j(1) by (simp add: label_class_def)
        then have "s < j" using s(2) by blast
        moreover have "b \<le> s" unfolding b_def using fin s(1) by (rule Min_le)
        ultimately show ?thesis by simp
      qed
    qed
    have val: "r ! i = (if kept msk w h b i then 1 else 0)" if i: "i < ?N" for i
    proof (cases "msk ! i = 0")
      case True
      then have "?L ! i = 0" using D(3) [OF i] by blast
      then show ?thesis using True rn [OF i] by (simp add: g_def kept_def)
    next
      case False
      note I = labelled_range [OF inv i False]
      have k: "truthyU keep (?L ! i) \<longleftrightarrow>
         ?L ! i = bid \<or>
         ((\<exists>j\<in>?cls (?L ! i). in_center w h j) \<and>
          max (real_of_int (min_area w h))
              (real_of_int (js_round (real (card (?cls bid)) * 0.12)))
            \<le> real (card (?cls (?L ! i))))"
        unfolding keep_def by (rule keep_flags_class [OF inv bid I(1,2)])
      have m: "?L ! i = bid \<longleftrightarrow> i \<in> component_of msk w h b"
        unfolding bcomp [symmetric] using i by (simp add: label_class_def)
      have "kept msk w h b i \<longleftrightarrow> truthyU keep (?L ! i)"
        unfolding kept_def k m comp_class(1,2) [OF inv i False] bar using False by simp
      then show ?thesis using rn [OF i] I(3) by (simp add: g_def)
    qed
    show ?thesis using res rl bp val False by blast
  qed
qed

lemma component_same:
  assumes "j \<in> component_of msk w h i"
  shows "comp_area msk w h j = comp_area msk w h i"
    and "comp_touches msk w h j = comp_touches msk w h i"
    and "comp_score msk w h j = comp_score msk w h i"
  unfolding comp_score_def comp_area_def comp_touches_def component_of_eq [OF assms]
  by simp_all

lemma two_blobs_kept:
  assumes tb: "two_blobs msk w h b s" and bp: "best_pixel msk w h b'" and i: "i < w * h"
  shows "kept msk w h b' i \<longleftrightarrow> i \<in> component_of msk w h b"
proof -
  have b: "b < w * h" "msk ! b \<noteq> 0" and s: "s < w * h" "msk ! s \<noteq> 0"
    and cover: "\<And>j. j < w * h \<Longrightarrow> msk ! j \<noteq> 0 \<Longrightarrow>
                  j \<in> component_of msk w h b \<or> j \<in> component_of msk w h s"
    and lt: "comp_area msk w h s < comp_area msk w h b" and nt: "\<not> comp_touches msk w h s"
    using tb unfolding two_blobs_def by blast+
  have b': "b' < w * h" "msk ! b' \<noteq> 0"
    and mx: "\<And>j. j < w * h \<Longrightarrow> msk ! j \<noteq> 0 \<Longrightarrow> comp_score msk w h j \<le> comp_score msk w h b'"
    using bp unfolding best_pixel_def by blast+
  have "comp_score msk w h s = real (comp_area msk w h s)"
    using nt by (simp add: comp_score_def)
  also have "\<dots> < real (comp_area msk w h b)" using lt by simp
  also have "\<dots> \<le> comp_score msk w h b" by (simp add: comp_score_def)
  also have "\<dots> \<le> comp_score msk w h b'" by (rule mx [OF b])
  finally have "comp_score msk w h b' \<noteq> comp_score msk w h s" by simp
  then have "b' \<notin> component_of msk w h s" using component_same(3) [of b' msk w h s] by auto
  then have "b' \<in> component_of msk w h b" using cover [OF b'] by simp
  then have eq: "component_of msk w h b' = component_of msk w h b" by (rule component_of_eq)
  show ?thesis
  proof (cases "i \<in> component_of msk w h b")
    case True
    then have "msk ! i \<noteq> 0" using component_of_fg [OF b] by simp
    then show ?thesis using True by (simp add: kept_def eq)
  next
    case False
    have "\<not> comp_touches msk w h i" if "msk ! i \<noteq> 0"
    proof -
      have "i \<in> component_of msk w h s" using cover [OF i that] False by simp
      then show ?thesis using component_same(2) [of i msk w h s] nt by simp
    qed
    then show ?thesis using False by (auto simp: kept_def eq)
  qed
qed

text \<open>
  C4. For a mask of \<open>width * height\<close> cells \<open>keepMainForegroundRegions\<close> terminates. When
  all foreground pixels are 4-connected (at most one component) it returns the mask
  itself. Otherwise the result is 1 exactly on the foreground pixels that lie in the
  component of a best pixel, one whose component has the greatest score
  \<open>area + (if it meets the centre box then 0.2 * width * height else 0)\<close>, the first such
  pixel in scan order, or in a component that meets the centre box and whose area is at
  least \<open>max (max 120 (round (0.0018 * width * height))) (round (0.12 * bestArea))\<close>; it is 0
  on every other pixel. The centre box is the one of the source: columns
  \<open>\<lfloor>0.25 * width\<rfloor>\<close> to \<open>\<lceil>0.75 * width\<rceil>\<close> and rows \<open>\<lfloor>0.25 * height\<rfloor>\<close> to \<open>\<lceil>0.75 * height\<rceil>\<close>,
  ends included. In particular, when the foreground consists of two components and the
  smaller one does not meet the centre box (a blob of area 10,000 and a blob of area 50
  away from the centre, say), the result is 1 exactly on the larger component.
\<close>

theorem keepMainForegroundRegions_components:
  "length msk = width * height \<longrightarrow>
     (\<exists>r. keepMainForegroundRegions msk width height = Some r \<and>
        (single_component msk width height \<longrightarrow> r = msk) \<and>
        (\<not> single_component msk width height \<longrightarrow>
           length r = width * height \<and>
           (\<exists>b. best_pixel msk width height b \<and>
              (\<forall>i<width * height. r ! i = (if kept msk width height b i then 1 else 0)))) \<and>
        (\<forall>b s. two_blobs msk width height b s \<longrightarrow>
           length r = width * height \<and>
           (\<forall>i<width * height.
              r ! i = (if i \<in> component_of msk width height b then 1 else 0))))"
proof
  assume len: "length msk = width * height"
  obtain r where r: "keepMainForegroundRegions msk width height = Some r"
    and one: "single_component msk width height \<Longrightarrow> r = msk"
    and many: "\<not> single_component msk width height \<Longrightarrow>
           length r = width * height \<and>
           (\<exists>b. best_pixel msk width height b \<and>
              (\<forall>i<width * height. r ! i = (if kept msk width height b i then 1 else 0)))"
    using keepMain_spec [OF len] by blast
  have blobs: "length r = width * height \<and>
           (\<forall>i<width * height.
              r ! i = (if i \<in> component_of msk width height b then 1 else 0))"
    if tb: "two_blobs msk width height b s" for b s
  proof -
    have b: "b < width * height" "msk ! b \<noteq> 0" and s: "s < width * height" "msk ! s \<noteq> 0"
      and lt: "comp_area msk width height s < comp_area msk width height b"
      using tb unfolding two_blobs_def by blast+
    have "s \<notin> component_of msk width height b"
      using component_same(1) [of s msk width height b] lt by auto
    then have "\<not> single_component msk width height"
      unfolding single_component_def using b s by blast
    from many [OF this] obtain b' where l: "length r = width * height"
      and bp: "best_pixel msk width height b'"
      and val: "\<And>i. i < width * height \<Longrightarrow> r ! i = (if kept msk width height b' i then 1 else 0)"
      by blast
    show ?thesis
      using l val two_blobs_kept [OF tb bp] by simp
  qed
  show "\<exists>r. keepMainForegroundRegions msk width height = Some r \<and>
        (single_component msk width height \<longrightarrow> r = msk) \<and>
        (\<not> single_component msk width height \<longrightarrow>
           length r = width * height \<and>
           (\<exists>b. best_pixel msk width height b \<and>
              (\<forall>i<width * height. r ! i = (if kept msk width height b i then 1 else 0)))) \<and>
        (\<forall>b s. two_blobs msk width height b s \<longrightarrow>
           length r = width * height \<and>
           (\<forall>i<width * height.
              r ! i = (if i \<in> component_of msk width height b then 1 else 0)))"
    using r one many blobs by blast
qed

lemma component_of_edge:
  "(i, j) \<in> fg_adj msk w h \<Longrightarrow> j \<in> component_of msk w h i"
  by (simp add: component_of_def)

lemma component_of_finite: "finite (component_of msk w h i)"
proof -
  have "j = i \<or> j < w * h" if "(i, j) \<in> (fg_adj msk w h)\<^sup>*" for j
    using that
  proof (induction rule: rtrancl_induct)
    case base
    show ?case by simp
  next
    case (step y z)
    then show ?case by (simp add: fg_adj_def adj4_def)
  qed
  then have "component_of msk w h i \<subseteq> insert i {..<w * h}"
    by (auto simp: component_of_def)
  then show ?thesis by (rule finite_subset) simp
qed

lemma single_example: "single_component [1, 1] 2 1"
proof -
  have e: "(0, 1) \<in> fg_adj [1, 1] 2 1" "(1, 0) \<in> fg_adj [1, 1] 2 1"
    by (simp_all add: fg_adj_def adj4_def)
  have "i \<in> component_of [1, 1] 2 1 j" if "i < 2" "j < 2" for i j :: nat
  proof -
    have "i = 0 \<or> i = 1" "j = 0 \<or> j = 1" using that by linarith+
    then show ?thesis
      using component_of_edge [OF e(1)] component_of_edge [OF e(2)]
        component_of_self [of 0 "[1, 1]" 2 1] component_of_self [of 1 "[1, 1]" 2 1]
      by (elim disjE) simp_all
  qed
  then show ?thesis by (simp add: single_component_def)
qed

lemma blobs_example:
  shows "two_blobs [1, 0, 1, 1] 4 1 2 0" and "1 \<notin> component_of [1, 0, 1, 1] 4 1 2"
  and "0 \<notin> component_of [1, 0, 1, 1] 4 1 2" and "3 \<in> component_of [1, 0, 1, 1] 4 1 2"
proof -
  let ?m = "[1, 0, 1, 1] :: nat list"
  have e: "(2, 3) \<in> fg_adj ?m 4 1" by (simp add: fg_adj_def adj4_def)
  have iso: "y = 0" if "(0, y) \<in> (fg_adj ?m 4 1)\<^sup>*" for y
    using that
  proof (induction rule: rtrancl_induct)
    case base
    show ?case by simp
  next
    case (step y z)
    then have z: "adj4 4 1 0 z" "?m ! z \<noteq> 0" by (simp_all add: fg_adj_def)
    then have "z < 4" by (simp add: adj4_def)
    then have "z = 0 \<or> z = 1 \<or> z = 2 \<or> z = 3" by linarith
    moreover have "\<not> adj4 4 1 0 2" "\<not> adj4 4 1 0 3" "?m ! 1 = 0"
      by (simp_all add: adj4_def)
    ultimately show ?case using z by (elim disjE) simp_all
  qed
  have c0: "component_of ?m 4 1 0 = {0}"
    using iso by (auto simp: component_of_def)
  show c3: "3 \<in> component_of ?m 4 1 2" by (rule component_of_edge [OF e])
  show n1: "1 \<notin> component_of ?m 4 1 2"
    using component_of_fg [of 2 4 1 ?m 1] by auto
  show n0: "0 \<notin> component_of ?m 4 1 2"
  proof
    assume "0 \<in> component_of ?m 4 1 2"
    then have "component_of ?m 4 1 0 = component_of ?m 4 1 2" by (rule component_of_eq)
    then show False using c0 component_of_self [of 2 ?m 4 1] by simp
  qed
  have "{2, 3} \<subseteq> component_of ?m 4 1 2"
    using c3 component_of_self [of 2 ?m 4 1] by simp
  then have "card {2, 3 :: nat} \<le> card (component_of ?m 4 1 2)"
    by (rule card_mono [OF component_of_finite])
  moreover have "card (component_of ?m 4 1 0) = 1" unfolding c0 by simp
  ultimately have ar: "comp_area ?m 4 1 0 < comp_area ?m 4 1 2"
    unfolding comp_area_def by simp
  have nt: "\<not> comp_touches ?m 4 1 0"
    unfolding comp_touches_def c0 by (simp add: in_center_def)
  have cover: "j \<in> component_of ?m 4 1 2 \<or> j \<in> component_of ?m 4 1 0"
    if "j < 4" "?m ! j \<noteq> 0" for j
  proof -
    have "j = 0 \<or> j = 1 \<or> j = 2 \<or> j = 3" using that(1) by linarith
    then show ?thesis using that(2) c3 c0 component_of_self [of 2 ?m 4 1]
      by (elim disjE) simp_all
  qed
  show "two_blobs ?m 4 1 2 0"
    unfolding two_blobs_def using ar nt cover by simp
qed

theorem keepMainForegroundRegions_components_witness:
  "keepMainForegroundRegions [1, 1] 2 1 = Some [1, 1] \<and>
   keepMainForegroundRegions [1, 0, 1, 1] 4 1 = Some [0, 0, 1, 1]"
proof
  show "keepMainForegroundRegions [1, 1] 2 1 = Some [1, 1]"
    using keepMainForegroundRegions_components [of "[1, 1]" 2 1] single_example by auto
  let ?m = "[1, 0, 1, 1] :: nat list"
  obtain r where r: "keepMainForegroundRegions ?m 4 1 = Some r"
    and l: "length r = 4"
    and v: "\<And>i. i < 4 \<Longrightarrow> r ! i = (if i \<in> component_of ?m 4 1 2 then 1 else 0)"
    using keepMainForegroundRegions_components [of ?m 4 1] blobs_example(1) by auto
  have "r ! 0 = 0" "r ! 1 = 0" "r ! 2 = 1" "r ! 3 = 1"
    using v [of 0] v [of 1] v [of 2] v [of 3] blobs_example(2,3,4)
      component_of_self [of 2 ?m 4 1] by simp_all
  then have "r = [0, 0, 1, 1]"
    using l by (intro nth_equalityI) (auto simp: less_Suc_eq numeral_eq_Suc)
  then show "keepMainForegroundRegions ?m 4 1 = Some [0, 0, 1, 1]" using r by simp
qed

section \<open>The background model of an image at least six rows high\<close>

text \<open>
  When the image has at least six rows every sample is read inside the buffer (the
  border band is at most as thick as the image is high), the percentiles are finite and
  ordered, and the two tolerances are ordered as well.
\<close>

lemma tolerance_order:
  assumes "0 \<le> p80" and "p80 \<le> p95"
  shows "\<exists>t e. clamp (jmax (Some 24) (jmul (Some p80) (Some 1.25))) (Some 24) (Some 110) = Some t \<and>
               clamp (jmax (Some 32) (jmul (Some p95) (Some 1.35))) (Some 32) (Some 135) = Some e \<and>
               t \<le> e"
proof -
  let ?t = "max 24 (min 110 (max 24 (p80 * 1.25)))"
  let ?e = "max 32 (min 135 (max 32 (p95 * 1.35)))"
  have "clamp (jmax (Some 24) (jmul (Some p80) (Some 1.25))) (Some 24) (Some 110) = Some ?t"
    by (simp add: clamp_def jmax_def jmin_def jmul_def)
  moreover have "clamp (jmax (Some 32) (jmul (Some p95) (Some 1.35))) (Some 32) (Some 135) = Some ?e"
    by (simp add: clamp_def jmax_def jmin_def jmul_def)
  moreover have "?t \<le> ?e"
    using assms by (simp add: max_def min_def)
  ultimately show ?thesis by blast
qed

lemma percentile_order:
  assumes some: "\<forall>v\<in>set xs. v \<noteq> None" and srt: "sorted (map the xs)" and ne: "xs \<noteq> []"
    and pq: "0 \<le> p" "p \<le> q" "q \<le> 1"
  shows "\<exists>a b. percentileSorted xs p = Some a \<and> percentileSorted xs q = Some b \<and> a \<le> b \<and>
               Some a \<in> set xs"
proof -
  let ?n = "length xs"
  define i where "i = nat (min (int ?n - 1) (max 0 \<lfloor>(real ?n - 1) * p\<rfloor>))"
  define j where "j = nat (min (int ?n - 1) (max 0 \<lfloor>(real ?n - 1) * q\<rfloor>))"
  have n: "0 < ?n" using ne by simp
  then have n1: "0 \<le> real ?n - 1" by (simp add: Suc_le_eq)
  have "(real ?n - 1) * p \<le> (real ?n - 1) * q"
    using pq n1 by (intro mult_left_mono)
  then have "\<lfloor>(real ?n - 1) * p\<rfloor> \<le> \<lfloor>(real ?n - 1) * q\<rfloor>" by (rule floor_mono)
  then have "min (int ?n - 1) (max 0 \<lfloor>(real ?n - 1) * p\<rfloor>) \<le>
             min (int ?n - 1) (max 0 \<lfloor>(real ?n - 1) * q\<rfloor>)"
    by linarith
  then have ij: "i \<le> j" unfolding i_def j_def by (rule nat_mono)
  have il: "i < ?n" "j < ?n" using n unfolding i_def j_def by linarith+
  have pi: "percentileSorted xs p = xs ! i" "percentileSorted xs q = xs ! j"
    using n il by (simp_all add: percentileSorted_def Let_def rdF_def i_def j_def)
  obtain a where a: "xs ! i = Some a" using some il(1) by (metis nth_mem not_None_eq)
  obtain b where b: "xs ! j = Some b" using some il(2) by (metis nth_mem not_None_eq)
  have "map the xs ! i \<le> map the xs ! j"
    by (rule sorted_nth_mono [OF srt ij]) (simp add: il)
  then have "a \<le> b" using a b il by simp
  moreover have "Some a \<in> set xs" using a il(1) by (metis nth_mem)
  ultimately show ?thesis using pi a b by simp
qed

lemma rgbDistance_Some:
  "rgbDistance (Some r1) (Some g1) (Some b1) (Some r2) (Some g2) (Some b2) =
     Some (sqrt ((r1 - r2) * (r1 - r2) + (g1 - g2) * (g1 - g2) + (b1 - b2) * (b1 - b2)))"
  by (simp add: rgbDistance_def Let_def jsub_def jmul_def jadd_def jsqrt_def)

lemma fold_jadd_Some:
  assumes "\<forall>s\<in>set ss. f s \<noteq> None"
  shows "\<exists>v. fold (\<lambda>s r. jadd r (to_num (f s))) ss (Some a) = Some v"
  using assms
proof (induction ss arbitrary: a)
  case Nil
  show ?case by simp
next
  case (Cons s ss)
  obtain n where n: "f s = Some n" using Cons.prems by auto
  have "jadd (Some a) (to_num (f s)) = Some (a + real n)"
    by (simp add: n jadd_def to_num_def)
  then show ?case using Cons.IH [of "a + real n"] Cons.prems by simp
qed

lemma averageColor_Some:
  assumes ne: "ss \<noteq> []" and df: "\<forall>s\<in>set ss. sample_defined s"
  shows "\<exists>r g b. averageColor ss = \<lparr> rgb_r = Some r, rgb_g = Some g, rgb_b = Some b \<rparr>"
proof -
  obtain r where r: "fold (\<lambda>s r. jadd r (to_num (fst s))) ss (Some 0) = Some r"
    using fold_jadd_Some [of ss fst 0] df by (auto simp: sample_defined_def)
  obtain g where g: "fold (\<lambda>s g. jadd g (to_num (fst (snd s)))) ss (Some 0) = Some g"
    using fold_jadd_Some [of ss "\<lambda>s. fst (snd s)" 0] df by (auto simp: sample_defined_def)
  obtain b where b: "fold (\<lambda>s b. jadd b (to_num (snd (snd s)))) ss (Some 0) = Some b"
    using fold_jadd_Some [of ss "\<lambda>s. snd (snd s)" 0] df by (auto simp: sample_defined_def)
  show ?thesis
    using ne unfolding averageColor_def Let_def r g b
    by (simp add: jdiv_def jround_def)
qed

lemma model_tail:
  assumes ne: "pool \<noteq> []" and df: "\<forall>s\<in>set pool. sample_defined s"
  shows "\<exists>t e.
     clamp (jmax (Some 24) (jmul (percentileSorted
         (sort_cmp (\<lambda>a b. jsub a b)
            (map (\<lambda>s. rgbDistance (to_num (fst s)) (to_num (fst (snd s))) (to_num (snd (snd s)))
                       (rgb_r (averageColor pool)) (rgb_g (averageColor pool))
                       (rgb_b (averageColor pool))) pool)) 0.8) (Some 1.25)))
       (Some 24) (Some 110) = Some t \<and>
     clamp (jmax (Some 32) (jmul (percentileSorted
         (sort_cmp (\<lambda>a b. jsub a b)
            (map (\<lambda>s. rgbDistance (to_num (fst s)) (to_num (fst (snd s))) (to_num (snd (snd s)))
                       (rgb_r (averageColor pool)) (rgb_g (averageColor pool))
                       (rgb_b (averageColor pool))) pool)) 0.95) (Some 1.35)))
       (Some 32) (Some 135) = Some e \<and>
     t \<le> e"
proof -
  obtain cr cg cb where c: "averageColor pool = \<lparr> rgb_r = Some cr, rgb_g = Some cg, rgb_b = Some cb \<rparr>"
    using averageColor_Some [OF ne df] by blast
  define dist where "dist = (\<lambda>s::sample.
     rgbDistance (to_num (fst s)) (to_num (fst (snd s))) (to_num (snd (snd s)))
       (Some cr) (Some cg) (Some cb))"
  define ds where "ds = map dist pool"
  have dv: "\<exists>v. d = Some v \<and> 0 \<le> v" if d_in: "d \<in> set ds" for d
  proof -
    obtain s where s: "s \<in> set pool" "d = dist s"
      using d_in unfolding ds_def set_map by blast
    obtain r g b where "fst s = Some r" "fst (snd s) = Some g" "snd (snd s) = Some b"
      using df s(1) by (auto simp: sample_defined_def)
    then show ?thesis
      unfolding s(2) dist_def by (simp add: to_num_def rgbDistance_Some)
  qed
  have "sort_cmp (\<lambda>a b. jsub a b) ds = sort_key the ds"
  proof (rule sort_cmp_key)
    fix x y assume "x \<in> set ds" "y \<in> set ds"
    then obtain u v where "x = Some u" "y = Some v" using dv by blast
    then show "jsub x y = Some (the x - the y)" by (simp add: jsub_def)
  qed
  then have srt: "sort_cmp (\<lambda>a b. jsub a b) ds = sort_key the ds" .
  let ?xs = "sort_key the ds"
  have "\<forall>v\<in>set ?xs. v \<noteq> None" using dv by auto
  moreover have "sorted (map the ?xs)" by (rule sorted_sort_key)
  moreover have "length ?xs = length pool" by (simp add: ds_def)
  then have "?xs \<noteq> []" using ne by (metis length_0_conv)
  ultimately obtain a b where p: "percentileSorted ?xs 0.8 = Some a"
    "percentileSorted ?xs 0.95 = Some b" "a \<le> b" "Some a \<in> set ?xs"
    using percentile_order [of ?xs "0.8" "0.95"] by auto
  have "0 \<le> a" using p(4) dv by auto
  from tolerance_order [OF this p(3)] show ?thesis
    unfolding c rgb.simps dist_def [symmetric] ds_def [symmetric] srt p .
qed

lemma bins_add_nonempty: "bins_add key r g b bs \<noteq> []"
  by (cases bs) (auto split: if_splits)

lemma stepped_bounds: "v \<in> set (stepped lo hi step) \<Longrightarrow> lo \<le> v \<and> v < hi"
  by (simp add: stepped_def)

lemma collect_samples_induct:
  assumes init: "P \<lparr> samples = [], bins = [] \<rparr>"
    and top: "\<And>x y st. P st \<Longrightarrow> x < width \<Longrightarrow> y < border \<Longrightarrow>
                P (addSample data width (int x) (int y) st)"
    and bot: "\<And>x y st. P st \<Longrightarrow> x < width \<Longrightarrow> y < border \<Longrightarrow>
                P (addSample data width (int x) (int height - 1 - int y) st)"
    and lft: "\<And>x y st. P st \<Longrightarrow> x < border \<Longrightarrow> border \<le> y \<Longrightarrow> y < height - border \<Longrightarrow>
                P (addSample data width (int x) (int y) st)"
    and rgt: "\<And>x y st. P st \<Longrightarrow> x < border \<Longrightarrow> border \<le> y \<Longrightarrow> y < height - border \<Longrightarrow>
                P (addSample data width (int width - 1 - int x) (int y) st)"
  shows "P (collect_samples data width height border step)"
proof -
  let ?rows = "fold (\<lambda>y. fold (\<lambda>x st.
                    addSample data width (int x) (int height - 1 - int y)
                      (addSample data width (int x) (int y) st))
                  (stepped 0 width step))
              (stepped 0 border step) \<lparr> samples = [], bins = [] \<rparr>"
  have rows: "P ?rows"
  proof (rule fold_invariant [where Q = "\<lambda>y. y < border"])
    fix y st assume y: "y < border" and st: "P st"
    show "P (fold (\<lambda>x st. addSample data width (int x) (int height - 1 - int y)
                      (addSample data width (int x) (int y) st)) (stepped 0 width step) st)"
    proof (rule fold_invariant [where Q = "\<lambda>x. x < width"])
      fix x s assume "x < width" "P s"
      then show "P (addSample data width (int x) (int height - 1 - int y)
                      (addSample data width (int x) (int y) s))"
        using y by (intro bot top)
    qed (use st stepped_bounds in auto)
  qed (use init stepped_bounds in auto)
  have "P (fold (\<lambda>x. fold (\<lambda>y st.
                    addSample data width (int width - 1 - int x) (int y)
                      (addSample data width (int x) (int y) st))
                  (stepped border (height - border) step))
           (stepped 0 border step) ?rows)"
  proof (rule fold_invariant [where Q = "\<lambda>x. x < border"])
    fix x st assume x: "x < border" and st: "P st"
    show "P (fold (\<lambda>y st. addSample data width (int width - 1 - int x) (int y)
                      (addSample data width (int x) (int y) st))
               (stepped border (height - border) step) st)"
    proof (rule fold_invariant [where Q = "\<lambda>y. border \<le> y \<and> y < height - border"])
      fix y s assume "border \<le> y \<and> y < height - border" "P s"
      then show "P (addSample data width (int width - 1 - int x) (int y)
                      (addSample data width (int x) (int y) s))"
        using x by (intro rgt lft) simp_all
    qed (use st stepped_bounds in auto)
  qed (use rows stepped_bounds in auto)
  then show ?thesis by (simp add: collect_samples_def Let_def)
qed

lemma addSample_bins:
  assumes "samples st = [] \<longleftrightarrow> bins st = []"
  shows "samples (addSample data width x y st) = [] \<longleftrightarrow> bins (addSample data width x y st) = []"
  using assms by (simp add: addSample_def Let_def bins_add_nonempty)

lemma addSample_defined:
  assumes df: "\<forall>s\<in>set (samples st). sample_defined s"
    and lo: "0 \<le> y * int width + x" and hi: "y * int width + x < int (width * height)"
    and len: "length data = 4 * width * height"
  shows "\<forall>s\<in>set (samples (addSample data width x y st)). sample_defined s"
proof -
  define p where "p = y * int width + x"
  have "0 \<le> p * 4" "p * 4 + 3 < int (length data)"
    using lo hi len unfolding p_def by simp_all
  then have "rdB data (p * 4) \<noteq> None" "rdB data (p * 4 + 1) \<noteq> None" "rdB data (p * 4 + 2) \<noteq> None"
    by (simp_all add: rdB_def)
  then show ?thesis
    using df unfolding addSample_def Let_def p_def [symmetric]
    by (simp add: sample_defined_def)
qed

lemma dominant_bin_Some:
  assumes "vs \<noteq> []"
  shows "\<exists>d. dominant_bin vs = Some d"
proof -
  let ?f = "\<lambda>v dominant. case dominant of None \<Rightarrow> Some v
             | Some d \<Rightarrow> if bin_count v > bin_count d then Some v else Some d"
  have "\<exists>d'. fold ?f xs (Some d) = Some d'" for xs d
    by (induction xs arbitrary: d) simp_all
  then show ?thesis
    using assms by (cases vs) (simp_all add: dominant_bin_def)
qed

lemma border_le_height:
  assumes "6 \<le> h"
  shows "nat (max 6 (min 18 (js_round (real (min w h) * 0.025)))) \<le> h"
proof -
  have "real (min w h) * 0.025 + 1 / 2 < real_of_int (int (min w h)) + 1" by simp
  then have "js_round (real (min w h) * 0.025) \<le> int (min w h)"
    unfolding js_round_def floor_le_iff .
  then show ?thesis using assms by simp
qed

lemma sample_points:
  fixes w h border x y :: nat
  assumes w: "1 \<le> w" and b: "border \<le> h"
  shows "x < w \<Longrightarrow> y < border \<Longrightarrow>
           0 \<le> int y * int w + int x \<and> int y * int w + int x < int (w * h)"
    and "x < w \<Longrightarrow> y < border \<Longrightarrow>
           0 \<le> (int h - 1 - int y) * int w + int x \<and>
           (int h - 1 - int y) * int w + int x < int (w * h)"
    and "x < border \<Longrightarrow> border \<le> y \<Longrightarrow> y < h - border \<Longrightarrow>
           0 \<le> int y * int w + int x \<and> int y * int w + int x < int (w * h)"
    and "x < border \<Longrightarrow> border \<le> y \<Longrightarrow> y < h - border \<Longrightarrow>
           0 \<le> int y * int w + (int w - 1 - int x) \<and>
           int y * int w + (int w - 1 - int x) < int (w * h)"
proof -
  show "0 \<le> int y * int w + int x \<and> int y * int w + int x < int (w * h)"
    if "x < w" "y < border"
  proof -
    have "y < h" using that b by simp
    then have "y * w + x < w * h" using that(1) by (intro pixel_index_less)
    then show ?thesis by (simp flip: of_nat_mult of_nat_add)
  qed
  show "0 \<le> (int h - 1 - int y) * int w + int x \<and>
        (int h - 1 - int y) * int w + int x < int (w * h)"
    if "x < w" "y < border"
  proof -
    have yh: "y < h" using that b by simp
    then have e: "int h - 1 - int y = int (h - 1 - y)" by simp
    have "h - 1 - y < h" using yh by simp
    then have "(h - 1 - y) * w + x < w * h" using that(1) by (intro pixel_index_less)
    then show ?thesis unfolding e by (simp flip: of_nat_mult of_nat_add)
  qed
  show "0 \<le> int y * int w + int x \<and> int y * int w + int x < int (w * h)"
    if "x < border" "border \<le> y" "y < h - border"
  proof -
    have "y * w + x < y * w + border" using that(1) by simp
    also have "\<dots> \<le> y * w + border * w" using w by simp
    also have "\<dots> = (y + border) * w" by (simp add: add_mult_distrib)
    also have "\<dots> \<le> h * w" using that(3) by (intro mult_le_mono1) simp
    finally have "y * w + x < w * h" by (simp add: mult.commute)
    then show ?thesis by (simp flip: of_nat_mult of_nat_add)
  qed
  show "0 \<le> int y * int w + (int w - 1 - int x) \<and>
        int y * int w + (int w - 1 - int x) < int (w * h)"
    if "x < border" "border \<le> y" "y < h - border"
  proof -
    have xy: "x < y" using that by simp
    have "y \<le> y * w" using w by simp
    then have "int y \<le> int (y * w)" by (rule of_nat_mono)
    then have "int y \<le> int y * int w" by simp
    moreover have "int x < int y" "1 \<le> int w" using xy w by simp_all
    ultimately have lo: "0 \<le> int y * int w + (int w - 1 - int x)" by linarith
    have yh: "y < h" using that(3) by simp
    have "int y * int w + (int w - 1 - int x) < int y * int w + int w" by simp
    also have "\<dots> = int ((y + 1) * w)" by (simp add: distrib_right)
    also have "\<dots> \<le> int (h * w)"
      using yh by (intro of_nat_mono mult_le_mono1) simp
    finally show ?thesis using lo by (simp add: mult.commute)
  qed
qed

lemma collect_samples_defined:
  assumes w: "1 \<le> width" and b: "border \<le> height" and len: "length data = 4 * width * height"
  shows "(\<forall>s\<in>set (samples (collect_samples data width height border step)). sample_defined s) \<and>
         (samples (collect_samples data width height border step) = [] \<longleftrightarrow>
          bins (collect_samples data width height border step) = [])"
proof (rule collect_samples_induct
    [where P = "\<lambda>st. (\<forall>s\<in>set (samples st). sample_defined s) \<and> (samples st = [] \<longleftrightarrow> bins st = [])"])
  show "(\<forall>s\<in>set (samples \<lparr>samples = [], bins = []\<rparr>). sample_defined s) \<and>
        (samples \<lparr>samples = [], bins = []\<rparr> = [] \<longleftrightarrow> bins \<lparr>samples = [], bins = []\<rparr> = [])"
    by simp
next
  fix x y :: nat and st :: sampling
  assume P: "(\<forall>s\<in>set (samples st). sample_defined s) \<and> (samples st = [] \<longleftrightarrow> bins st = [])"
    and xy: "x < width" "y < border"
  show "(\<forall>s\<in>set (samples (addSample data width (int x) (int y) st)). sample_defined s) \<and>
        (samples (addSample data width (int x) (int y) st) = [] \<longleftrightarrow>
         bins (addSample data width (int x) (int y) st) = [])"
    using addSample_defined [of st "int y" width "int x" height data]
      addSample_bins [of st data width "int x" "int y"]
      sample_points(1) [OF w b xy] P len by blast
  show "(\<forall>s\<in>set (samples (addSample data width (int x) (int height - 1 - int y) st)).
           sample_defined s) \<and>
        (samples (addSample data width (int x) (int height - 1 - int y) st) = [] \<longleftrightarrow>
         bins (addSample data width (int x) (int height - 1 - int y) st) = [])"
    using addSample_defined [of st "int height - 1 - int y" width "int x" height data]
      addSample_bins [of st data width "int x" "int height - 1 - int y"]
      sample_points(2) [OF w b xy] P len by blast
next
  fix x y :: nat and st :: sampling
  assume P: "(\<forall>s\<in>set (samples st). sample_defined s) \<and> (samples st = [] \<longleftrightarrow> bins st = [])"
    and xy: "x < border" "border \<le> y" "y < height - border"
  show "(\<forall>s\<in>set (samples (addSample data width (int x) (int y) st)). sample_defined s) \<and>
        (samples (addSample data width (int x) (int y) st) = [] \<longleftrightarrow>
         bins (addSample data width (int x) (int y) st) = [])"
    using addSample_defined [of st "int y" width "int x" height data]
      addSample_bins [of st data width "int x" "int y"]
      sample_points(3) [OF w b xy] P len by blast
  show "(\<forall>s\<in>set (samples (addSample data width (int width - 1 - int x) (int y) st)).
           sample_defined s) \<and>
        (samples (addSample data width (int width - 1 - int x) (int y) st) = [] \<longleftrightarrow>
         bins (addSample data width (int width - 1 - int x) (int y) st) = [])"
    using addSample_defined [of st "int y" width "int width - 1 - int x" height data]
      addSample_bins [of st data width "int width - 1 - int x" "int y"]
      sample_points(4) [OF w b xy] P len by blast
qed

lemma estimateBackgroundModel_tall:
  assumes w: "1 \<le> width" and h: "6 \<le> height" and len: "length data = 4 * width * height"
  shows "\<exists>m t e. estimateBackgroundModel data width height = Inr m \<and>
           tolerance m = Some t \<and> expansionTolerance m = Some e \<and> t \<le> e"
proof -
  define border where "border = nat (max 6 (min 18 (js_round (real (min width height) * 0.025))))"
  define step where "step = nat (max 1 (js_round (real (min width height) / 320)))"
  define st where "st = collect_samples data width height border step"
  have b: "border \<le> height" unfolding border_def by (rule border_le_height [OF h])
  have df: "\<forall>s\<in>set (samples st). sample_defined s"
    and sb: "samples st = [] \<longleftrightarrow> bins st = []"
    using collect_samples_defined [OF w b len, of step] by (simp_all add: st_def)
  show ?thesis
  proof (cases "samples st = []")
    case True
    then show ?thesis
      unfolding estimateBackgroundModel_def Let_def border_def [symmetric] step_def [symmetric]
        st_def [symmetric]
      by simp
  next
    case False
    then have "map snd (bins st) \<noteq> []" using sb by simp
    then obtain d where d: "dominant_bin (map snd (bins st)) = Some d"
      using dominant_bin_Some by blast
    define c0 where "c0 = \<lparr> rgb_r = jround (jdiv (bin_r d) (Some (real (bin_count d)))),
                              rgb_g = jround (jdiv (bin_g d) (Some (real (bin_count d)))),
                              rgb_b = jround (jdiv (bin_b d) (Some (real (bin_count d)))) \<rparr>"
    define near where "near = filter (\<lambda>s.
                       jlt (rgbDistance (to_num (fst s)) (to_num (fst (snd s))) (to_num (snd (snd s)))
                              (rgb_r c0) (rgb_g c0) (rgb_b c0)) (Some 42))
                     (samples st)"
    define pool where "pool = (if length near \<ge> 50 then near else samples st)"
    have pne: "pool \<noteq> []" using False by (auto simp: pool_def)
    have pdf: "\<forall>s\<in>set pool. sample_defined s" using df by (auto simp: pool_def near_def)
    obtain t e where te:
     "clamp (jmax (Some 24) (jmul (percentileSorted
         (sort_cmp (\<lambda>a b. jsub a b)
            (map (\<lambda>s. rgbDistance (to_num (fst s)) (to_num (fst (snd s))) (to_num (snd (snd s)))
                       (rgb_r (averageColor pool)) (rgb_g (averageColor pool))
                       (rgb_b (averageColor pool))) pool)) 0.8) (Some 1.25)))
       (Some 24) (Some 110) = Some t"
     "clamp (jmax (Some 32) (jmul (percentileSorted
         (sort_cmp (\<lambda>a b. jsub a b)
            (map (\<lambda>s. rgbDistance (to_num (fst s)) (to_num (fst (snd s))) (to_num (snd (snd s)))
                       (rgb_r (averageColor pool)) (rgb_g (averageColor pool))
                       (rgb_b (averageColor pool))) pool)) 0.95) (Some 1.35)))
       (Some 32) (Some 135) = Some e"
     "t \<le> e"
      using model_tail [OF pne pdf] by blast
    have "estimateBackgroundModel data width height =
          Inr \<lparr> m_r = rgb_r (averageColor pool), m_g = rgb_g (averageColor pool),
                m_b = rgb_b (averageColor pool), tolerance = Some t, expansionTolerance = Some e \<rparr>"
      unfolding estimateBackgroundModel_def Let_def border_def [symmetric] step_def [symmetric]
        st_def [symmetric] d option.case c0_def [symmetric] near_def [symmetric]
        pool_def [symmetric] te
      using False by simp
    then show ?thesis using te(3) by simp
  qed
qed

end
